theory Spec2Isabelle
  imports Complex_Main "HOL-Library.Word" "HOL-Library.AList"
begin

section \<open>Layer 8 pattern-substitution codec: registry, mapper and composer\<close>

text \<open>
  A shallow embedding of \<^verbatim>\<open>src/extreme_engine.py\<close>. Python \<^verbatim>\<open>bytes\<close> are lists of
  8-bit words; Python's unbounded non-negative integers (identifiers, sizes, positions)
  are natural numbers. A Python \<^verbatim>\<open>dict\<close> keeps its keys in insertion order, and both
  \<^verbatim>\<open>sorted(...items())\<close> in \<^verbatim>\<open>compress\<close> and the loop of \<^verbatim>\<open>serialize\<close> depend on that
  order, so a dictionary is an association list with the update of
  \<^const>\<open>AList.update\<close>: an existing key keeps its place and gets the new value, a new
  key goes to the end.
\<close>

subsection \<open>Data model\<close>

type_synonym byte = "8 word"
type_synonym bytes = "byte list"

text \<open>The exceptions the module can raise or let through.\<close>

datatype error =
    KeyError            \<comment> \<open>\<^verbatim>\<open>self.id_to_pattern[pid]\<close> on an unknown identifier\<close>
  | StructError         \<comment> \<open>\<^verbatim>\<open>struct.pack\<close> / \<^verbatim>\<open>struct.unpack\<close> on a bad argument\<close>
  | IntegrityError      \<comment> \<open>raised by \<^verbatim>\<open>decompress\<close> on a digest mismatch\<close>
  | MalformedStream     \<comment> \<open>the variable-length integer decoder on truncated input\<close>

text \<open>\<^verbatim>\<open>config.CompressionLayer\<close>.\<close>

datatype CompressionLayer =
    L1_SEMANTIC_MAPPING
  | L2_STRUCTURAL_MAPPING
  | L3_DELTA_ENCODING
  | L4_VARIABLE_BITPACKING
  | L5_ADVANCED_RLE
  | L6_CROSS_BLOCK_PATTERNS
  | L7_PATTERN_REFINEMENT
  | L8_ULTRA_EXTREME_MAPPING

text \<open>
  \<^verbatim>\<open>GlobalPatternRegistry\<close>: the two dictionaries and the counter \<^verbatim>\<open>_next_id\<close>.
\<close>

record registry =
  pattern_to_id :: "(bytes \<times> nat) list"
  id_to_pattern :: "(nat \<times> bytes) list"
  next_id :: nat

definition registry_init :: registry where
  "registry_init = \<lparr>pattern_to_id = [], id_to_pattern = [], next_id = 0\<rparr>"

subsection \<open>The pattern registry\<close>

text \<open>
  \<^verbatim>\<open>register\<close> returns the identifier and the registry after the call (the Python
  method mutates \<^verbatim>\<open>self\<close>).
\<close>

definition register :: "registry \<Rightarrow> bytes \<Rightarrow> nat \<times> registry" where
  "register r pattern =
     (case map_of (pattern_to_id r) pattern of
        Some pid \<Rightarrow> (pid, r)
      | None \<Rightarrow>
          (let pid = next_id r in
           (pid, \<lparr>pattern_to_id = AList.update pattern pid (pattern_to_id r),
                  id_to_pattern = AList.update pid pattern (id_to_pattern r),
                  next_id = next_id r + 1\<rparr>)))"

definition lookup :: "registry \<Rightarrow> nat \<Rightarrow> error + bytes" where
  "lookup r pid =
     (case map_of (id_to_pattern r) pid of
        None \<Rightarrow> Inl KeyError
      | Some pattern \<Rightarrow> Inr pattern)"

text \<open>
  A registry built by \<^verbatim>\<open>register\<close> calls: the patterns \<open>ps\<close> are registered from left to
  right, starting from a fresh registry.
\<close>

definition register_all :: "bytes list \<Rightarrow> registry" where
  "register_all ps = fold (\<lambda>p r. snd (register r p)) ps registry_init"

text \<open>The patterns of a list in order of first occurrence, duplicates dropped.\<close>

definition first_occurrences :: "'a list \<Rightarrow> 'a list" where
  "first_occurrences xs = rev (remdups (rev xs))"

subsection \<open>Collaborators that are not part of this module\<close>

text \<open>
  Modelled from the spec: \<^verbatim>\<open>VarIntCodec\<close> is imported from \<^verbatim>\<open>engine.py\<close>, which is not
  among the sources. The spec (section 6) gives its contract: \<^verbatim>\<open>encode(uint) -> bytes\<close> is
  self-terminating with a most-significant-bit-per-byte continuation scheme, and
  \<^verbatim>\<open>decode(bytes, offset) -> (uint, bytes_consumed)\<close>; \<^verbatim>\<open>config.py\<close> has the constants
  \<^verbatim>\<open>VARINT_CONTINUATION_BIT = 0x80\<close> and \<^verbatim>\<open>VARINT_VALUE_MASK = 0x7F\<close>. The model is the
  usual base-128 encoding, low group first: every byte carries seven bits of the value,
  and the top bit says that another byte follows. Decoding input that ends before the
  encoding terminates is the spec's \<^verbatim>\<open>MalformedStream\<close> condition (section 4.2).
\<close>

fun varint_encode :: "nat \<Rightarrow> bytes" where
  "varint_encode n =
     (if n < 128 then [of_nat n]
      else of_nat (n mod 128 + 128) # varint_encode (n div 128))"

declare varint_encode.simps [simp del]

text \<open>
  Modelled from the spec: the decoder of \<^verbatim>\<open>VarIntCodec\<close> (missing with \<^verbatim>\<open>engine.py\<close>), on
  the bytes from the offset onwards. It returns the value and the number of bytes it
  consumed.
\<close>

fun varint_decode_from :: "bytes \<Rightarrow> error + nat \<times> nat" where
  "varint_decode_from [] = Inl MalformedStream"
| "varint_decode_from (b # bs) =
     (if b < 128 then Inr (unat b, 1)
      else (case varint_decode_from bs of
              Inl e \<Rightarrow> Inl e
            | Inr (v, consumed) \<Rightarrow> Inr (unat b - 128 + 128 * v, consumed + 1)))"

text \<open>
  Modelled from the spec: \<^verbatim>\<open>VarIntCodec.decode(data, offset)\<close> (missing with \<^verbatim>\<open>engine.py\<close>).
\<close>

definition varint_decode :: "bytes \<Rightarrow> nat \<Rightarrow> error + nat \<times> nat" where
  "varint_decode data offset = varint_decode_from (drop offset data)"

text \<open>
  \<^verbatim>\<open>struct.pack(">I", n)\<close> and \<^verbatim>\<open>struct.unpack(">I", bs)[0]\<close> of the Python standard
  library: four bytes, big-endian. Packing raises \<^verbatim>\<open>struct.error\<close> when the number does
  not fit 32 bits, unpacking when the buffer is not exactly four bytes long.
\<close>

definition pack_u32 :: "nat \<Rightarrow> error + bytes" where
  "pack_u32 n =
     (if n < 2 ^ 32
      then Inr [of_nat (n div 2 ^ 24), of_nat (n div 2 ^ 16), of_nat (n div 2 ^ 8), of_nat n]
      else Inl StructError)"

definition unpack_u32 :: "bytes \<Rightarrow> error + nat" where
  "unpack_u32 bs =
     (case bs of
        [b3, b2, b1, b0] \<Rightarrow>
          Inr (unat b3 * 2 ^ 24 + unat b2 * 2 ^ 16 + unat b1 * 2 ^ 8 + unat b0)
      | _ \<Rightarrow> Inl StructError)"

text \<open>
  Modelled from the spec: \<^verbatim>\<open>CompressionMetadata\<close> is a dataclass of \<^verbatim>\<open>engine.py\<close>, which
  is not among the sources; the spec (section 3) lists its attributes, and the calls in
  this module name its fields. The record has the fields that
  \<^verbatim>\<open>compress\<close> sets; the fields it leaves at the defaults of the dataclass
  (\<^verbatim>\<open>dictionary_versions\<close>, \<^verbatim>\<open>timestamp\<close>, \<^verbatim>\<open>entropy_score\<close>) are not read by any function
  modelled here. \<^verbatim>\<open>compression_ratio\<close> is a Python float; the model keeps the exact
  quotient. \<^verbatim>\<open>integrity_hash\<close> may be \<^verbatim>\<open>None\<close> or a byte string.
\<close>

record metadata =
  block_id :: nat
  original_size :: nat
  compressed_size :: nat
  compression_ratio :: real
  layers_applied :: "CompressionLayer list"
  integrity_hash :: "bytes option"

text \<open>
  The truth value Python gives \<^verbatim>\<open>metadata.integrity_hash\<close> in \<^verbatim>\<open>if metadata.integrity_hash:\<close>:
  \<^verbatim>\<open>None\<close> and the empty byte string are false, every other byte string is true.
\<close>

definition hash_present :: "metadata \<Rightarrow> bool" where
  "hash_present m =
     (case integrity_hash m of None \<Rightarrow> False | Some h \<Rightarrow> h \<noteq> [])"

text \<open>
  A stand-in for the digest in closed examples only. The functions below take the digest
  (\<^verbatim>\<open>hashlib.sha256(...).digest()\<close> in the source) as the parameter \<open>H\<close>, and every theorem
  holds for every \<open>H\<close>.
\<close>

definition demo_digest :: "bytes \<Rightarrow> bytes" where
  "demo_digest bs = [of_nat (length bs), fold (+) bs 0]"

subsection \<open>Serialization of the registry\<close>

text \<open>
  \<^verbatim>\<open>serialize\<close>: the second argument of the loop is the content of the \<^verbatim>\<open>BytesIO\<close> written
  so far.
\<close>

fun serialize_entries :: "(nat \<times> bytes) list \<Rightarrow> bytes \<Rightarrow> error + bytes" where
  "serialize_entries [] out = Inr out"
| "serialize_entries ((pid, pat) # rest) out =
     (case pack_u32 pid of
        Inl e \<Rightarrow> Inl e
      | Inr pid_bytes \<Rightarrow>
          (case pack_u32 (length pat) of
             Inl e \<Rightarrow> Inl e
           | Inr len_bytes \<Rightarrow> serialize_entries rest (out @ pid_bytes @ len_bytes @ pat)))"

definition serialize :: "registry \<Rightarrow> error + bytes" where
  "serialize r =
     (case pack_u32 (length (id_to_pattern r)) of
        Inl e \<Rightarrow> Inl e
      | Inr count_bytes \<Rightarrow> serialize_entries (id_to_pattern r) count_bytes)"

text \<open>
  \<^verbatim>\<open>deserialize\<close> mutates the registry record by record, so an exception in the middle
  leaves the records read so far in place: the result is the registry after the call
  together with the exception, if one was raised. The buffer argument is what is left
  to read of the \<^verbatim>\<open>BytesIO\<close>; \<^verbatim>\<open>buf.read(n)\<close> returns the next \<open>n\<close> bytes, or fewer when
  fewer are left.
\<close>

fun deserialize_loop :: "nat \<Rightarrow> bytes \<Rightarrow> registry \<Rightarrow> registry \<times> error option" where
  "deserialize_loop 0 buf r = (r, None)"
| "deserialize_loop (Suc n) buf r =
     (case unpack_u32 (take 4 buf) of
        Inl e \<Rightarrow> (r, Some e)
      | Inr pid \<Rightarrow>
          (case unpack_u32 (take 4 (drop 4 buf)) of
             Inl e \<Rightarrow> (r, Some e)
           | Inr len \<Rightarrow>
               (let pat = take len (drop 8 buf) in
                deserialize_loop n (drop len (drop 8 buf))
                  \<lparr>pattern_to_id = AList.update pat pid (pattern_to_id r),
                   id_to_pattern = AList.update pid pat (id_to_pattern r),
                   next_id = max (next_id r) (pid + 1)\<rparr>)))"

definition deserialize :: "registry \<Rightarrow> bytes \<Rightarrow> registry \<times> error option" where
  "deserialize r data =
     (let count_bytes = take 4 data in
      if count_bytes = [] then (r, None)
      else (case unpack_u32 count_bytes of
              Inl e \<Rightarrow> (r, Some e)
            | Inr count \<Rightarrow> deserialize_loop count (drop 4 data) r))"

subsection \<open>Layer 8: the mapper\<close>

definition ESCAPE_BYTE :: byte where
  "ESCAPE_BYTE = 0xFE"

text \<open>
  \<^verbatim>\<open>sorted(self.registry.pattern_to_id.items(), key=lambda kv: -len(kv[0]))\<close>: Python's sort
  is stable, and so is \<^const>\<open>sort_key\<close>.
\<close>

definition sorted_patterns :: "registry \<Rightarrow> (bytes \<times> nat) list" where
  "sorted_patterns r = sort_key (\<lambda>kv. - int (length (fst kv))) (pattern_to_id r)"

text \<open>\<^verbatim>\<open>data.startswith(pattern, i)\<close>.\<close>

definition startswith :: "bytes \<Rightarrow> bytes \<Rightarrow> nat \<Rightarrow> bool" where
  "startswith data pattern i \<longleftrightarrow>
     i \<le> length data \<and> take (length pattern) (drop i data) = pattern"

text \<open>
  The inner \<^verbatim>\<open>for pattern, pid in sorted_patterns\<close> loop: the first pattern of the list
  that occurs at position \<open>i\<close>, if any.
\<close>

fun first_match :: "(bytes \<times> nat) list \<Rightarrow> bytes \<Rightarrow> nat \<Rightarrow> (bytes \<times> nat) option" where
  "first_match [] data i = None"
| "first_match ((pattern, pid) # rest) data i =
     (if startswith data pattern i then Some (pattern, pid)
      else first_match rest data i)"

text \<open>
  The \<^verbatim>\<open>while i < len(data)\<close> loop of \<^verbatim>\<open>compress\<close>. Nothing in the source makes \<open>i\<close> grow
  when the pattern that matches is empty, so the loop is a partial function: \<open>None\<close>
  stands for a run that never returns.
\<close>

partial_function (option) compress_loop ::
  "(bytes \<times> nat) list \<Rightarrow> bytes \<Rightarrow> nat \<Rightarrow> bytes \<Rightarrow> bytes option" where
  "compress_loop sp data i output =
     (if i < length data then
        (case first_match sp data i of
           Some (pattern, pid) \<Rightarrow>
             compress_loop sp data (i + length pattern)
               (output @ [ESCAPE_BYTE] @ varint_encode pid)
         | None \<Rightarrow> compress_loop sp data (i + 1) (output @ [data ! i]))
      else Some output)"

definition compress :: "(bytes \<Rightarrow> bytes) \<Rightarrow> registry \<Rightarrow> bytes \<Rightarrow> (bytes \<times> metadata) option" where
  "compress H r data =
     (case compress_loop (sorted_patterns r) data 0 [] of
        None \<Rightarrow> None
      | Some compressed_bytes \<Rightarrow>
          Some (compressed_bytes,
            \<lparr>block_id = 0,
             original_size = length data,
             compressed_size = length compressed_bytes,
             compression_ratio =
               (if length compressed_bytes > 0
                then real (length data) / real (length compressed_bytes) else 1),
             layers_applied = [L8_ULTRA_EXTREME_MAPPING],
             integrity_hash = Some (H data)\<rparr>))"

text \<open>The \<^verbatim>\<open>while i < len(data)\<close> loop of \<^verbatim>\<open>decompress\<close>.\<close>

function decompress_loop :: "registry \<Rightarrow> bytes \<Rightarrow> nat \<Rightarrow> bytes \<Rightarrow> error + bytes" where
  "decompress_loop r data i output =
     (if i < length data then
        (if data ! i = ESCAPE_BYTE then
           (case varint_decode data (i + 1) of
              Inl e \<Rightarrow> Inl e
            | Inr (pid, consumed) \<Rightarrow>
                (case lookup r pid of
                   Inl e \<Rightarrow> Inl e
                 | Inr pattern \<Rightarrow>
                     decompress_loop r data (i + 1 + consumed) (output @ pattern)))
         else decompress_loop r data (i + 1) (output @ [data ! i]))
      else Inr output)"
  by pat_completeness auto
termination
  by (relation "measure (\<lambda>(r, data, i, output). length data - i)") auto

declare decompress_loop.simps [simp del]

definition decompress :: "(bytes \<Rightarrow> bytes) \<Rightarrow> registry \<Rightarrow> bytes \<Rightarrow> metadata \<Rightarrow> error + bytes" where
  "decompress H r data m =
     (case decompress_loop r data 0 [] of
        Inl e \<Rightarrow> Inl e
      | Inr result \<Rightarrow>
          (if hash_present m then
             (if Some (H result) \<noteq> integrity_hash m then Inl IntegrityError
              else Inr result)
           else Inr result))"

subsection \<open>The engine wrapper\<close>

text \<open>
  \<^verbatim>\<open>ExtremeCobolEngine.compress_block\<close>. The inner engine (\<^verbatim>\<open>CobolEngine\<close> of
  \<^verbatim>\<open>engine.py\<close>) is the parameter \<open>inner\<close>: it returns its bytes and metadata, or raises.
\<close>

definition compress_block ::
  "(bytes \<Rightarrow> bytes) \<Rightarrow> (bytes \<Rightarrow> error + bytes \<times> metadata) \<Rightarrow> registry \<Rightarrow> bytes
     \<Rightarrow> (error + bytes \<times> metadata) option" where
  "compress_block H inner r data =
     (case compress H r data of
        None \<Rightarrow> None
      | Some (l8_out, l8_meta) \<Rightarrow>
          Some (case inner l8_out of
                  Inl e \<Rightarrow> Inl e
                | Inr (final_out, final_meta) \<Rightarrow>
                    (if final_out = l8_out then
                       Inr (l8_out,
                            l8_meta\<lparr>original_size := length data,
                                    integrity_hash := Some (H data)\<rparr>)
                     else
                       Inr (final_out,
                            final_meta\<lparr>layers_applied :=
                                         L8_ULTRA_EXTREME_MAPPING # layers_applied final_meta,
                                       original_size := length data,
                                       integrity_hash := Some (H data)\<rparr>))))"

subsection \<open>Well-formed registries\<close>

text \<open>
  The invariant of the data model (spec, section 3): the two dictionaries describe one
  bijection, so every entry of \<^verbatim>\<open>pattern_to_id\<close> is found again through \<^verbatim>\<open>lookup\<close>.
\<close>

definition registry_consistent :: "registry \<Rightarrow> bool" where
  "registry_consistent r \<longleftrightarrow> (\<forall>(p, pid) \<in> set (pattern_to_id r). lookup r pid = Inr p)"

definition patterns_nonempty :: "registry \<Rightarrow> bool" where
  "patterns_nonempty r \<longleftrightarrow> (\<forall>(p, pid) \<in> set (pattern_to_id r). p \<noteq> [])"

text \<open>What \<^verbatim>\<open>compress\<close> writes for a match: the marker byte and the encoded identifier.\<close>

definition pointer_length :: "nat \<Rightarrow> nat" where
  "pointer_length pid = 1 + length (varint_encode pid)"

text \<open>No pattern is shorter than the pointer that replaces it.\<close>

definition pointers_fit :: "registry \<Rightarrow> bool" where
  "pointers_fit r \<longleftrightarrow> (\<forall>(p, pid) \<in> set (pattern_to_id r). pointer_length pid \<le> length p)"

text \<open>Some registered pattern occurs in \<open>data\<close> at position \<open>j\<close>.\<close>

definition pattern_occurs :: "registry \<Rightarrow> bytes \<Rightarrow> nat \<Rightarrow> bool" where
  "pattern_occurs r data j \<longleftrightarrow> (\<exists>kv \<in> set (pattern_to_id r). startswith data (fst kv) j)"

text \<open>No registered pattern occurs anywhere in \<open>data\<close>.\<close>

definition no_pattern_occurs :: "registry \<Rightarrow> bytes \<Rightarrow> bool" where
  "no_pattern_occurs r data \<longleftrightarrow> (\<forall>j < length data. \<not> pattern_occurs r data j)"

text \<open>
  A Python dictionary holds every key once. An association list models a dictionary when
  its keys are distinct; \<^const>\<open>AList.update\<close> keeps them so.
\<close>

definition dict_ok :: "('k \<times> 'v) list \<Rightarrow> bool" where
  "dict_ok kvs \<longleftrightarrow> distinct (map fst kvs)"

text \<open>
  Stand-ins for the inner engine in closed examples only: one that returns its input
  unchanged, one that puts a byte in front of it.
\<close>

definition demo_pipeline_unchanged :: "bytes \<Rightarrow> error + bytes \<times> metadata" where
  "demo_pipeline_unchanged bs =
     Inr (bs, \<lparr>block_id = 7, original_size = length bs, compressed_size = length bs,
               compression_ratio = 1, layers_applied = [],
               integrity_hash = Some (demo_digest bs)\<rparr>)"

definition demo_pipeline_changed :: "bytes \<Rightarrow> error + bytes \<times> metadata" where
  "demo_pipeline_changed bs =
     Inr (0x01 # bs, \<lparr>block_id = 7, original_size = length bs, compressed_size = length bs + 1,
               compression_ratio = 1,
               layers_applied = [L1_SEMANTIC_MAPPING, L3_DELTA_ENCODING],
               integrity_hash = Some (demo_digest bs)\<rparr>)"

subsection \<open>The snapshot format\<close>

text \<open>
  The format that \<^verbatim>\<open>serialize\<close> documents, \<^verbatim>\<open>[num_entries:4][id:4][len:4][pattern bytes]...\<close>,
  written out for stating the properties below: the four big-endian bytes of a number,
  the bytes of a list of records, the records whose fields fit 32 bits, and what the
  body of the loop of \<^verbatim>\<open>deserialize\<close> does to the registry for one record.
\<close>

definition be32 :: "nat \<Rightarrow> bytes" where
  "be32 n = [of_nat (n div 2 ^ 24), of_nat (n div 2 ^ 16), of_nat (n div 2 ^ 8), of_nat n]"

definition encode_entries :: "(nat \<times> bytes) list \<Rightarrow> bytes" where
  "encode_entries es = concat (map (\<lambda>(pid, pat). be32 pid @ be32 (length pat) @ pat) es)"

definition entries_fit :: "(nat \<times> bytes) list \<Rightarrow> bool" where
  "entries_fit es \<longleftrightarrow> (\<forall>(pid, pat) \<in> set es. pid < 2 ^ 32 \<and> length pat < 2 ^ 32)"

definition merge_entry :: "nat \<times> bytes \<Rightarrow> registry \<Rightarrow> registry" where
  "merge_entry e r =
     \<lparr>pattern_to_id = AList.update (snd e) (fst e) (pattern_to_id r),
      id_to_pattern = AList.update (fst e) (snd e) (id_to_pattern r),
      next_id = max (next_id r) (fst e + 1)\<rparr>"

text \<open>
  The positions at which the \<^verbatim>\<open>while\<close> loop of \<^verbatim>\<open>compress\<close> looks for a match: it starts
  at 0, moves on by one after a byte that matches nothing, and by the length of the
  pattern after a match.
\<close>

inductive scan_reaches :: "(bytes \<times> nat) list \<Rightarrow> bytes \<Rightarrow> nat \<Rightarrow> bool"
  for sp :: "(bytes \<times> nat) list" and data :: bytes where
  start: "scan_reaches sp data 0"
| after_literal:
    "scan_reaches sp data i \<Longrightarrow> i < length data \<Longrightarrow> first_match sp data i = None \<Longrightarrow>
     scan_reaches sp data (i + 1)"
| after_pointer:
    "scan_reaches sp data i \<Longrightarrow> i < length data \<Longrightarrow>
     first_match sp data i = Some (pattern, pid) \<Longrightarrow>
     scan_reaches sp data (i + length pattern)"

text \<open>No byte that \<^verbatim>\<open>compress\<close> copies as it is (line 152) is the marker byte.\<close>

definition no_marker_copied :: "registry \<Rightarrow> bytes \<Rightarrow> bool" where
  "no_marker_copied r data \<longleftrightarrow>
     (\<forall>i < length data.
        scan_reaches (sorted_patterns r) data i \<and> first_match (sorted_patterns r) data i = None
          \<longrightarrow> data ! i \<noteq> ESCAPE_BYTE)"

text \<open>
  Every pointer that \<^verbatim>\<open>compress\<close> writes for this input is resolved by \<^verbatim>\<open>lookup\<close> to the
  pattern it stands for.
\<close>

definition pointers_resolve :: "registry \<Rightarrow> bytes \<Rightarrow> bool" where
  "pointers_resolve r data \<longleftrightarrow>
     (\<forall>i < length data. \<forall>pattern pid.
        scan_reaches (sorted_patterns r) data i \<and>
        first_match (sorted_patterns r) data i = Some (pattern, pid)
          \<longrightarrow> lookup r pid = Inr pattern)"

text \<open>
  The encoding in the words of the spec (section 4.2), for comparison with the loop of
  \<^verbatim>\<open>compress\<close>: at each position the longest registered pattern that occurs there is
  replaced by the marker byte and its encoded identifier, ties among patterns of equal
  length going to the smaller identifier, and the scan moves on by the length of the
  pattern; where no registered pattern occurs the byte is emitted as it is and the scan
  moves on by one. (The literal escape of the spec is left out: see C2.)
\<close>

inductive spec_encoding :: "registry \<Rightarrow> bytes \<Rightarrow> nat \<Rightarrow> bytes \<Rightarrow> bool"
  for r :: registry and data :: bytes where
  finished: "length data \<le> i \<Longrightarrow> spec_encoding r data i []"
| literal:
    "i < length data \<Longrightarrow> \<not> pattern_occurs r data i \<Longrightarrow>
     spec_encoding r data (i + 1) res \<Longrightarrow>
     spec_encoding r data i (data ! i # res)"
| pointer:
    "i < length data \<Longrightarrow> (pattern, pid) \<in> set (pattern_to_id r) \<Longrightarrow>
     startswith data pattern i \<Longrightarrow>
     (\<forall>(q, qid) \<in> set (pattern_to_id r). startswith data q i \<longrightarrow>
        length q < length pattern \<or> (length q = length pattern \<and> pid \<le> qid)) \<Longrightarrow>
     spec_encoding r data (i + length pattern) res \<Longrightarrow>
     spec_encoding r data i (ESCAPE_BYTE # varint_encode pid @ res)"

section \<open>Properties\<close>

subsection \<open>Registration\<close>

lemma first_occurrences_snoc:
  "first_occurrences (xs @ [x]) =
     (if x \<in> set xs then first_occurrences xs else first_occurrences xs @ [x])"
  by (simp add: first_occurrences_def)

lemma set_first_occurrences [simp]: "set (first_occurrences xs) = set xs"
  by (simp add: first_occurrences_def)

lemma distinct_first_occurrences [simp]: "distinct (first_occurrences xs)"
  by (simp add: first_occurrences_def)

lemma length_first_occurrences: "length (first_occurrences xs) = card (set xs)"
  by (metis distinct_card distinct_first_occurrences set_first_occurrences)

lemma update_fresh: "k \<notin> fst ` set al \<Longrightarrow> AList.update k v al = al @ [(k, v)]"
  by (induction al) auto

lemma register_all_snoc:
  "register_all (ps @ [p]) = snd (register (register_all ps) p)"
  by (simp add: register_all_def)

text \<open>
  The shape of every registry built by registrations: the k-th distinct pattern has the
  identifier k, both dictionaries hold the same pairs in the same order, and the counter
  is the number of entries.
\<close>

lemma register_all_shape:
  "pattern_to_id (register_all ps) =
     zip (first_occurrences ps) [0 ..< card (set ps)] \<and>
   id_to_pattern (register_all ps) =
     zip [0 ..< card (set ps)] (first_occurrences ps) \<and>
   next_id (register_all ps) = card (set ps)"
proof (induction ps rule: rev_induct)
  case Nil
  show ?case by (simp add: register_all_def registry_init_def first_occurrences_def)
next
  case (snoc p ps)
  let ?r = "register_all ps"
  let ?n = "card (set ps)"
  have len: "length (first_occurrences ps) = ?n"
    by (rule length_first_occurrences)
  have keys: "fst ` set (pattern_to_id ?r) = set ps"
    using snoc len by (simp add: zip_eq_conv [symmetric] map_fst_zip flip: set_map)
  have ids: "fst ` set (id_to_pattern ?r) = {0 ..< ?n}"
    using snoc len by (simp add: map_fst_zip flip: set_map)
  show ?case
  proof (cases "p \<in> set ps")
    case True
    then obtain pid where "map_of (pattern_to_id ?r) p = Some pid"
      using keys by (metis domD dom_map_of_conv_image_fst)
    then have "register ?r p = (pid, ?r)"
      by (simp add: register_def)
    moreover have "card (set (ps @ [p])) = ?n"
      using True by (simp add: insert_absorb)
    ultimately show ?thesis
      using snoc True by (simp add: register_all_snoc first_occurrences_snoc)
  next
    case False
    then have none: "map_of (pattern_to_id ?r) p = None"
      using keys by (metis domIff dom_map_of_conv_image_fst)
    have fresh_p: "p \<notin> fst ` set (pattern_to_id ?r)"
      using False keys by simp
    have fresh_n: "next_id ?r \<notin> fst ` set (id_to_pattern ?r)"
      using ids snoc by simp
    have card: "card (set (ps @ [p])) = Suc ?n"
      using False by simp
    have reg: "snd (register ?r p) =
        \<lparr>pattern_to_id = pattern_to_id ?r @ [(p, ?n)],
         id_to_pattern = id_to_pattern ?r @ [(?n, p)],
         next_id = Suc ?n\<rparr>"
      using none fresh_p fresh_n snoc
      by (simp add: register_def Let_def update_fresh)
    show ?thesis
      unfolding register_all_snoc reg card
      using snoc False len by (simp add: first_occurrences_snoc)
  qed
qed

lemma register_twice:
  "register r p = (pid, r') \<Longrightarrow> register r' p = (pid, r')"
  by (auto simp: register_def Let_def update_conv' split: option.splits)

lemma register_known:
  "p \<in> set ps \<Longrightarrow> snd (register (register_all ps) p) = register_all ps"
proof -
  assume "p \<in> set ps"
  then have "p \<in> fst ` set (pattern_to_id (register_all ps))"
    using register_all_shape [of ps]
    by (simp add: length_first_occurrences map_fst_zip flip: set_map)
  then obtain pid where "map_of (pattern_to_id (register_all ps)) p = Some pid"
    by (metis domD dom_map_of_conv_image_fst)
  then show ?thesis by (simp add: register_def)
qed

lemma register_new:
  assumes "p \<notin> set ps"
  shows "register (register_all ps) p =
     (card (set ps),
      \<lparr>pattern_to_id = pattern_to_id (register_all ps) @ [(p, card (set ps))],
       id_to_pattern = id_to_pattern (register_all ps) @ [(card (set ps), p)],
       next_id = Suc (card (set ps))\<rparr>)"
proof -
  let ?r = "register_all ps"
  note shape = register_all_shape [of ps]
  have len: "length (first_occurrences ps) = card (set ps)"
    by (rule length_first_occurrences)
  have "fst ` set (pattern_to_id ?r) = set ps"
    using shape len by (simp add: map_fst_zip flip: set_map)
  with assms have fresh_p: "p \<notin> fst ` set (pattern_to_id ?r)"
    by simp
  then have none: "map_of (pattern_to_id ?r) p = None"
    by (metis domIff dom_map_of_conv_image_fst)
  have "fst ` set (id_to_pattern ?r) = {0 ..< card (set ps)}"
    using shape len by (simp add: map_fst_zip flip: set_map)
  then have fresh_n: "next_id ?r \<notin> fst ` set (id_to_pattern ?r)"
    using shape by simp
  show ?thesis
    using none fresh_p fresh_n shape
    by (simp add: register_def Let_def update_fresh)
qed

lemma register_all_ids:
  "map snd (pattern_to_id (register_all ps)) = [0 ..< card (set ps)]"
  using register_all_shape [of ps]
  by (simp add: length_first_occurrences)

text \<open>
  C6. \<^verbatim>\<open>register\<close> is idempotent and allocates identifiers sequentially from zero.
  Take any registry built by registering the patterns \<open>ps\<close> in order (with or without
  repetitions) and register one more pattern \<open>p\<close>, getting the identifier \<open>pid\<close>.
  Registering \<open>p\<close> again returns \<open>pid\<close> again and changes nothing. The registry holds
  exactly one entry per distinct pattern registered so far, in both dictionaries, and
  the identifiers handed out are 0, 1, 2, ... in order of first registration. If \<open>p\<close> was
  registered before, the call leaves the registry as it was; if \<open>p\<close> is new, it receives
  the next sequential identifier (the number of distinct patterns before it), which no
  earlier pattern holds, and both dictionaries grow by exactly one entry.
\<close>

theorem register_idempotent_sequential:
  assumes "register (register_all ps) p = (pid, r')"
  shows "register r' p = (pid, r') \<and>
         length (pattern_to_id (register_all ps)) = card (set ps) \<and>
         length (id_to_pattern (register_all ps)) = card (set ps) \<and>
         map snd (pattern_to_id (register_all ps)) = [0 ..< card (set ps)] \<and>
         (p \<in> set ps \<longrightarrow> r' = register_all ps) \<and>
         (p \<notin> set ps \<longrightarrow>
            pid = card (set ps) \<and>
            pid \<notin> snd ` set (pattern_to_id (register_all ps)) \<and>
            length (pattern_to_id r') = card (set ps) + 1 \<and>
            length (id_to_pattern r') = card (set ps) + 1)"
proof -
  let ?r = "register_all ps"
  have len: "length (first_occurrences ps) = card (set ps)"
    by (rule length_first_occurrences)
  have a: "register r' p = (pid, r')"
    using assms by (rule register_twice)
  have b: "length (pattern_to_id ?r) = card (set ps)"
    using register_all_shape [of ps] len by simp
  have c: "length (id_to_pattern ?r) = card (set ps)"
    using register_all_shape [of ps] len by simp
  have d: "map snd (pattern_to_id ?r) = [0 ..< card (set ps)]"
    by (rule register_all_ids)
  have e: "r' = ?r" if "p \<in> set ps"
    using register_known [OF that] assms by simp
  have f: "pid = card (set ps) \<and> pid \<notin> snd ` set (pattern_to_id ?r) \<and>
           length (pattern_to_id r') = card (set ps) + 1 \<and>
           length (id_to_pattern r') = card (set ps) + 1" if "p \<notin> set ps"
  proof -
    have "snd ` set (pattern_to_id ?r) = {0 ..< card (set ps)}"
      using d by (metis set_map set_upt)
    then show ?thesis
      using register_new [OF that] assms b c by auto
  qed
  from a b c d e f show ?thesis by blast
qed

theorem register_idempotent_sequential_witness:
  "register (register_all [[0x41, 0x41], [0x42], [0x41, 0x41]]) [0x43] =
     (2, \<lparr>pattern_to_id = [([0x41, 0x41], 0), ([0x42], 1), ([0x43], 2)],
          id_to_pattern = [(0, [0x41, 0x41]), (1, [0x42]), (2, [0x43])],
          next_id = 3\<rparr>) \<and>
   register \<lparr>pattern_to_id = [([0x41, 0x41], 0), ([0x42], 1), ([0x43], 2)],
             id_to_pattern = [(0, [0x41, 0x41]), (1, [0x42]), (2, [0x43])],
             next_id = 3\<rparr> [0x43] =
     (2, \<lparr>pattern_to_id = [([0x41, 0x41], 0), ([0x42], 1), ([0x43], 2)],
          id_to_pattern = [(0, [0x41, 0x41]), (1, [0x42]), (2, [0x43])],
          next_id = 3\<rparr>) \<and>
   map snd (pattern_to_id (register_all [[0x41, 0x41], [0x42], [0x41, 0x41]])) = [0, 1]"
proof -
  have reg: "register (register_all [[0x41, 0x41], [0x42], [0x41, 0x41]]) [0x43] =
     (2, \<lparr>pattern_to_id = [([0x41, 0x41], 0), ([0x42], 1), ([0x43], 2)],
          id_to_pattern = [(0, [0x41, 0x41]), (1, [0x42]), (2, [0x43])],
          next_id = 3\<rparr>)"
    by (simp add: register_all_def registry_init_def register_def)
  have card: "card (set [[0x41, 0x41], [0x42], [0x41, 0x41 :: byte]]) = 2"
    by (simp add: card_insert_if)
  from register_idempotent_sequential [OF reg] reg card show ?thesis
    by (simp add: upt_rec)
qed

subsection \<open>Evaluating the loops\<close>

lemma compress_loop_done:
  "\<not> i < length data \<Longrightarrow> compress_loop sp data i out = Some out"
  by (subst compress_loop.simps) simp

lemma compress_loop_literal:
  "i < length data \<Longrightarrow> first_match sp data i = None \<Longrightarrow>
   compress_loop sp data i out = compress_loop sp data (i + 1) (out @ [data ! i])"
  by (subst compress_loop.simps) simp

lemma compress_loop_pointer:
  "i < length data \<Longrightarrow> first_match sp data i = Some (pattern, pid) \<Longrightarrow>
   compress_loop sp data i out =
     compress_loop sp data (i + length pattern) (out @ [ESCAPE_BYTE] @ varint_encode pid)"
  by (subst compress_loop.simps) simp

lemma compress_loop_step:
  "i < length data \<Longrightarrow>
   compress_loop sp data i out =
     (case first_match sp data i of
        Some (pattern, pid) \<Rightarrow>
          compress_loop sp data (i + length pattern) (out @ [ESCAPE_BYTE] @ varint_encode pid)
      | None \<Rightarrow> compress_loop sp data (i + 1) (out @ [data ! i]))"
  by (subst compress_loop.simps) simp

lemma decompress_loop_done:
  "\<not> i < length data \<Longrightarrow> decompress_loop r data i out = Inr out"
  by (simp add: decompress_loop.simps)

lemma decompress_loop_literal:
  "i < length data \<Longrightarrow> data ! i \<noteq> ESCAPE_BYTE \<Longrightarrow>
   decompress_loop r data i out = decompress_loop r data (i + 1) (out @ [data ! i])"
  by (subst decompress_loop.simps) simp

lemma decompress_loop_pointer:
  "i < length data \<Longrightarrow> data ! i = ESCAPE_BYTE \<Longrightarrow>
   varint_decode data (i + 1) = Inr (pid, consumed) \<Longrightarrow> lookup r pid = Inr pattern \<Longrightarrow>
   decompress_loop r data i out = decompress_loop r data (i + 1 + consumed) (out @ pattern)"
  by (subst decompress_loop.simps) simp

lemma decompress_loop_step:
  "i < length data \<Longrightarrow>
   decompress_loop r data i out =
     (if data ! i = ESCAPE_BYTE then
        (case varint_decode data (i + 1) of
           Inl e \<Rightarrow> Inl e
         | Inr (pid, consumed) \<Rightarrow>
             (case lookup r pid of
                Inl e \<Rightarrow> Inl e
              | Inr pattern \<Rightarrow> decompress_loop r data (i + 1 + consumed) (out @ pattern)))
      else decompress_loop r data (i + 1) (out @ [data ! i]))"
  by (subst decompress_loop.simps) simp

lemmas registry_eval = register_all_def register_def registry_init_def

lemmas compress_eval = compress_def compress_loop_done compress_loop_step
  sorted_patterns_def startswith_def ESCAPE_BYTE_def varint_encode.simps

lemmas decompress_eval = decompress_def decompress_loop_done decompress_loop_step
  varint_decode_def lookup_def hash_present_def ESCAPE_BYTE_def

subsection \<open>The variable-length integer codec\<close>

lemma unat_byte_of_nat: "n < 256 \<Longrightarrow> unat (of_nat n :: byte) = n"
  by (simp add: unat_of_nat)

lemma varint_decode_encode:
  "varint_decode_from (varint_encode n @ rest) = Inr (n, length (varint_encode n))"
proof (induction n rule: varint_encode.induct)
  case (1 n)
  show ?case
  proof (cases "n < 128")
    case True
    then have "(of_nat n :: byte) < 128"
      by (simp add: word_less_nat_alt unat_byte_of_nat)
    with True show ?thesis
      by (simp add: varint_encode.simps [of n] unat_byte_of_nat)
  next
    case False
    let ?b = "of_nat (n mod 128 + 128) :: byte"
    have u: "unat ?b = n mod 128 + 128"
      by (rule unat_byte_of_nat) simp
    then have nb: "\<not> ?b < 128"
      by (simp add: word_less_nat_alt)
    have enc: "varint_encode n = ?b # varint_encode (n div 128)"
      using False by (simp add: varint_encode.simps [of n])
    show ?thesis
      using "1.IH" [OF False] nb u by (simp add: enc)
  qed
qed

subsection \<open>Matching\<close>

lemma first_match_Some:
  "first_match sp data i = Some (p, pid) \<Longrightarrow> (p, pid) \<in> set sp \<and> startswith data p i"
  by (induction sp) (auto split: if_splits)

lemma first_match_None_iff:
  "first_match sp data i = None \<longleftrightarrow> (\<forall>kv \<in> set sp. \<not> startswith data (fst kv) i)"
  by (induction sp) (auto split: if_splits)

lemma startswith_split:
  assumes "startswith data p i"
  shows "i + length p \<le> length data" and "drop i data = p @ drop (i + length p) data"
proof -
  from assms have le: "i \<le> length data" and tk: "take (length p) (drop i data) = p"
    by (simp_all add: startswith_def)
  from tk have "length (take (length p) (drop i data)) = length p"
    by simp
  then show "i + length p \<le> length data"
    using le by simp
  have "drop i data = take (length p) (drop i data) @ drop (length p) (drop i data)"
    by (simp only: append_take_drop_id)
  then have "drop i data = p @ drop (length p) (drop i data)"
    using tk by simp
  then show "drop i data = p @ drop (i + length p) data"
    by (simp add: add.commute)
qed

lemma set_sorted_patterns: "set (sorted_patterns r) = set (pattern_to_id r)"
  by (simp add: sorted_patterns_def)

subsection \<open>Registries built by registration are well formed\<close>

lemma register_all_consistent: "registry_consistent (register_all ps)"
proof -
  let ?fo = "first_occurrences ps"
  let ?n = "card (set ps)"
  note shape = register_all_shape [of ps]
  have len: "length ?fo = ?n"
    by (rule length_first_occurrences)
  have "lookup (register_all ps) pid = Inr p"
    if "(p, pid) \<in> set (pattern_to_id (register_all ps))" for p pid
  proof -
    from that shape have "(p, pid) \<in> set (zip ?fo [0 ..< ?n])"
      by simp
    then obtain k where k: "k < ?n" "?fo ! k = p" "pid = k"
      using len by (auto simp: in_set_zip)
    have "map_of (zip [0 ..< ?n] ?fo) ([0 ..< ?n] ! k) = Some (?fo ! k)"
      using k(1) len by (intro map_of_zip_nth) simp_all
    then show ?thesis
      using k shape by (simp add: lookup_def)
  qed
  then show ?thesis
    by (auto simp: registry_consistent_def)
qed

lemma register_all_nonempty: "[] \<notin> set ps \<Longrightarrow> patterns_nonempty (register_all ps)"
  using register_all_shape [of ps]
  by (auto simp: patterns_nonempty_def dest!: set_zip_leftD)

subsection \<open>Bytes that match no pattern\<close>

text \<open>
  C2, as amended. When no registered pattern matches at the scan position, \<^verbatim>\<open>compress\<close>
  appends the byte at that position as it is and moves on by one, whatever the byte is,
  0xFE included: there is no literal-escape marker. Consequently an input in which no
  registered pattern occurs anywhere is returned unchanged as the compressed output.
\<close>

theorem unmatched_byte_verbatim:
  "(i < length data \<and> first_match sp data i = None \<longrightarrow>
      compress_loop sp data i out = compress_loop sp data (i + 1) (out @ [data ! i])) \<and>
   (no_pattern_occurs r data \<longrightarrow> map_option fst (compress H r data) = Some data)"
proof (intro conjI impI)
  assume "i < length data \<and> first_match sp data i = None"
  then show "compress_loop sp data i out = compress_loop sp data (i + 1) (out @ [data ! i])"
    by (simp add: compress_loop_literal)
next
  assume nomatch: "no_pattern_occurs r data"
  let ?sp = "sorted_patterns r"
  have none: "first_match ?sp data j = None" if "j < length data" for j
    using nomatch that
    by (simp add: no_pattern_occurs_def pattern_occurs_def first_match_None_iff
        set_sorted_patterns)
  have "i \<le> length data \<Longrightarrow> compress_loop ?sp data i out = Some (out @ drop i data)" for i out
  proof (induction "length data - i" arbitrary: i out)
    case 0
    then show ?case by (simp add: compress_loop_done)
  next
    case (Suc n)
    then have lt: "i < length data" by simp
    have "compress_loop ?sp data i out = compress_loop ?sp data (i + 1) (out @ [data ! i])"
      using lt none by (simp add: compress_loop_literal)
    also have "\<dots> = Some ((out @ [data ! i]) @ drop (i + 1) data)"
      using Suc lt by (intro Suc.hyps) simp_all
    also have "(out @ [data ! i]) @ drop (i + 1) data = out @ drop i data"
      using lt by (simp add: Cons_nth_drop_Suc)
    finally show ?case .
  qed
  from this [of 0 "[]"] show "map_option fst (compress H r data) = Some data"
    by (simp add: compress_def)
qed

theorem unmatched_byte_verbatim_witness:
  "no_pattern_occurs (register_all [[0x41, 0x41]]) [0xFE, 0x00] \<and>
   (0 :: nat) < length [0xFE, 0x00 :: byte] \<and>
   first_match [([0x41, 0x41], 0)] [0xFE, 0x00] 0 = None \<and>
   compress_loop [([0x41, 0x41], 0)] [0xFE, 0x00] 0 [] =
     compress_loop [([0x41, 0x41], 0)] [0xFE, 0x00] (0 + 1) ([] @ [[0xFE, 0x00] ! 0]) \<and>
   map_option fst (compress demo_digest (register_all [[0x41, 0x41]]) [0xFE, 0x00]) = Some [0xFE, 0x00]"
proof -
  have h1: "no_pattern_occurs (register_all [[0x41, 0x41]]) [0xFE, 0x00]"
    by (simp add: no_pattern_occurs_def pattern_occurs_def All_less_Suc2 registry_eval
        startswith_def)
  have h2: "(0 :: nat) < length [0xFE, 0x00 :: byte] \<and> first_match [([0x41, 0x41], 0)] [0xFE, 0x00] 0 = None"
    by (simp add: startswith_def)
  from unmatched_byte_verbatim [of 0 "[0xFE, 0x00]" "[([0x41, 0x41], 0)]" "[]"
      "register_all [[0x41, 0x41]]" demo_digest] h1 h2
  show ?thesis by blast
qed

text \<open>
  The claim C2 as stated fails: with the pattern \<^verbatim>\<open>AA\<close> registered, no pattern matches at
  the first byte of 0xFE 0x00, the output is the same two bytes and not an escape pair,
  and \<^verbatim>\<open>decompress\<close> takes them for a pointer to \<^verbatim>\<open>AA\<close>, so the digests differ and it
  raises \<^verbatim>\<open>IntegrityError\<close>.
\<close>

theorem literal_escape_counterexample:
  "first_match (sorted_patterns (register_all [[0x41, 0x41]])) [0xFE, 0x00] 0 = None \<and>
   compress demo_digest (register_all [[0x41, 0x41]]) [0xFE, 0x00] =
     Some ([0xFE, 0x00],
           \<lparr>block_id = 0, original_size = 2, compressed_size = 2, compression_ratio = 1,
            layers_applied = [L8_ULTRA_EXTREME_MAPPING],
            integrity_hash = Some (demo_digest [0xFE, 0x00])\<rparr>) \<and>
   decompress demo_digest (register_all [[0x41, 0x41]]) [0xFE, 0x00]
     \<lparr>block_id = 0, original_size = 2, compressed_size = 2, compression_ratio = 1,
      layers_applied = [L8_ULTRA_EXTREME_MAPPING],
      integrity_hash = Some (demo_digest [0xFE, 0x00])\<rparr> = Inl IntegrityError"
  by (simp add: compress_eval registry_eval decompress_eval demo_digest_def)

subsection \<open>Termination and size of the output\<close>

lemma compress_loop_bound:
  assumes ne: "\<forall>(p, pid) \<in> set sp. p \<noteq> []"
  shows "i \<le> length data \<Longrightarrow>
    \<exists>res. compress_loop sp data i cout = Some (cout @ res) \<and>
      ((\<forall>(p, pid) \<in> set sp. pointer_length pid \<le> length p) \<longrightarrow> length res \<le> length data - i)"
proof (induction "length data - i" arbitrary: i cout rule: less_induct)
  case less
  show ?case
  proof (cases "i < length data")
    case False
    then have "compress_loop sp data i cout = Some (cout @ [])"
      by (simp add: compress_loop_done)
    then show ?thesis by force
  next
    case True
    show ?thesis
    proof (cases "first_match sp data i")
      case None
      have "length data - (i + 1) < length data - i" "i + 1 \<le> length data"
        using True by simp_all
      from less.hyps [OF this, of "cout @ [data ! i]"]
      obtain res where c: "compress_loop sp data (i + 1) (cout @ [data ! i]) = Some ((cout @ [data ! i]) @ res)"
        and b: "(\<forall>(p, pid) \<in> set sp. pointer_length pid \<le> length p) \<longrightarrow> length res \<le> length data - (i + 1)"
        by blast
      have "compress_loop sp data i cout = Some (cout @ (data ! i # res))"
        using True None c by (simp add: compress_loop_literal)
      moreover have "(\<forall>(p, pid) \<in> set sp. pointer_length pid \<le> length p) \<longrightarrow>
          length (data ! i # res) \<le> length data - i"
        using b True by auto
      ultimately show ?thesis by blast
    next
      case (Some m)
      obtain p pid where m: "m = (p, pid)" by (cases m)
      from Some m first_match_Some have mem: "(p, pid) \<in> set sp" and sw: "startswith data p i"
        by blast+
      from mem ne have "p \<noteq> []" by blast
      then have pos: "0 < length p" by simp
      note sp = startswith_split [OF sw]
      let ?tok = "ESCAPE_BYTE # varint_encode pid"
      have "length data - (i + length p) < length data - i" "i + length p \<le> length data"
        using True pos sp(1) by linarith+
      from less.hyps [OF this, of "cout @ [ESCAPE_BYTE] @ varint_encode pid"]
      obtain res where c: "compress_loop sp data (i + length p) (cout @ [ESCAPE_BYTE] @ varint_encode pid)
            = Some ((cout @ [ESCAPE_BYTE] @ varint_encode pid) @ res)"
        and b: "(\<forall>(p, pid) \<in> set sp. pointer_length pid \<le> length p) \<longrightarrow> length res \<le> length data - (i + length p)"
        by blast
      have "compress_loop sp data i cout = Some (cout @ (?tok @ res))"
        using True Some m c by (simp add: compress_loop_pointer)
      moreover have "length (?tok @ res) \<le> length data - i"
        if all: "\<forall>(p, pid) \<in> set sp. pointer_length pid \<le> length p"
      proof -
        from all mem have "pointer_length pid \<le> length p" by blast
        moreover from all b have "length res \<le> length data - (i + length p)" by blast
        ultimately show ?thesis
          using sp(1) by (simp add: pointer_length_def)
      qed
      ultimately show ?thesis by blast
    qed
  qed
qed

lemma compress_loop_empty_match_diverges:
  assumes "i < length data" and "first_match sp data i = Some ([], pid)"
  shows "compress_loop sp data i out = None"
proof (rule ccontr)
  assume "compress_loop sp data i out \<noteq> None"
  then obtain y where y: "compress_loop sp data i out = Some y"
    by blast
  have "\<not> (i < length data \<and> (\<exists>pid. first_match sp data i = Some ([], pid)))"
  proof (rule compress_loop.raw_induct
      [where P = "\<lambda>sp data i out y.
         \<not> (i < length data \<and> (\<exists>pid. first_match sp data i = Some ([], pid)))", OF _ y])
    fix loop :: "(bytes \<times> nat) list \<Rightarrow> bytes \<Rightarrow> nat \<Rightarrow> bytes \<Rightarrow> bytes option"
    fix sp data i out y
    assume IH: "\<And>sp data i out y. loop sp data i out = Some y \<Longrightarrow>
        \<not> (i < length data \<and> (\<exists>pid. first_match sp data i = Some ([], pid)))"
    assume step: "(if i < length data
         then case first_match sp data i of
                None \<Rightarrow> loop sp data (i + 1) (out @ [data ! i])
              | Some (pattern, pid) \<Rightarrow>
                  loop sp data (i + length pattern) (out @ [ESCAPE_BYTE] @ varint_encode pid)
         else Some out) = Some y"
    show "\<not> (i < length data \<and> (\<exists>pid. first_match sp data i = Some ([], pid)))"
    proof
      assume a: "i < length data \<and> (\<exists>pid. first_match sp data i = Some ([], pid))"
      then obtain pid where "first_match sp data i = Some ([], pid)"
        by blast
      with a step have "loop sp data i (out @ [ESCAPE_BYTE] @ varint_encode pid) = Some y"
        by simp
      from IH [OF this] a show False
        by blast
    qed
  qed
  with assms show False by blast
qed

text \<open>
  C3, as amended. For every registry whose patterns are all non-empty and every input,
  \<^verbatim>\<open>compress\<close> returns; and when every registered pattern is at least as long as its
  pointer (the marker byte and the encoded identifier), the output is no longer than the
  input, so it is within the input length plus one byte per occurrence of 0xFE as well.
\<close>

theorem compress_terminates_bounded:
  assumes "patterns_nonempty r"
  shows "\<exists>out m. compress H r data = Some (out, m) \<and>
           (pointers_fit r \<longrightarrow> length out \<le> length data)"
proof -
  let ?sp = "sorted_patterns r"
  have ne: "\<forall>(p, pid) \<in> set ?sp. p \<noteq> []"
    using assms by (simp add: patterns_nonempty_def set_sorted_patterns)
  from compress_loop_bound [OF ne, of 0 data "[]"]
  obtain res where c: "compress_loop ?sp data 0 [] = Some res"
    and b: "(\<forall>(p, pid) \<in> set ?sp. pointer_length pid \<le> length p) \<longrightarrow> length res \<le> length data"
    by auto
  obtain m where "compress H r data = Some (res, m)"
    using c by (simp add: compress_def)
  with b show ?thesis
    by (auto simp: set_sorted_patterns pointers_fit_def)
qed

theorem compress_terminates_bounded_witness:
  "patterns_nonempty (register_all [[0x41, 0x41, 0x41, 0x41]]) \<and>
   pointers_fit (register_all [[0x41, 0x41, 0x41, 0x41]]) \<and>
   (\<exists>out m. compress demo_digest (register_all [[0x41, 0x41, 0x41, 0x41]])
        [0x41, 0x41, 0x41, 0x41, 0x42, 0xFE] = Some (out, m) \<and>
      length out \<le> length [0x41, 0x41, 0x41, 0x41, 0x42, 0xFE :: byte])"
proof -
  let ?r = "register_all [[0x41, 0x41, 0x41, 0x41]]"
  have h1: "patterns_nonempty ?r"
    by (simp add: patterns_nonempty_def registry_eval)
  have h2: "pointers_fit ?r"
    by (simp add: pointers_fit_def registry_eval pointer_length_def varint_encode.simps)
  from compress_terminates_bounded [OF h1, of demo_digest "[0x41, 0x41, 0x41, 0x41, 0x42, 0xFE]"] h1 h2
  show ?thesis by blast
qed

text \<open>
  The claim C3 as stated fails twice. With the one-byte pattern \<^verbatim>\<open>A\<close> registered, the
  input \<^verbatim>\<open>A\<close>, which has no byte 0xFE, becomes the two bytes 0xFE 0x00. With the empty
  pattern registered, the scan of \<^verbatim>\<open>A\<close> matches it at position 0 again and again and
  never returns.
\<close>

theorem compress_bound_counterexample:
  "compress demo_digest (register_all [[0x41]]) [0x41] =
     Some ([0xFE, 0x00],
           \<lparr>block_id = 0, original_size = 1, compressed_size = 2, compression_ratio = 1 / 2,
            layers_applied = [L8_ULTRA_EXTREME_MAPPING],
            integrity_hash = Some (demo_digest [0x41])\<rparr>) \<and>
   \<not> length [0xFE, 0x00 :: byte] \<le> length [0x41 :: byte] + count_list [0x41] ESCAPE_BYTE \<and>
   compress demo_digest (register_all [[]]) [0x41] = None"
proof -
  have "first_match (sorted_patterns (register_all [[]])) [0x41] 0 = Some ([], 0)"
    by (simp add: sorted_patterns_def registry_eval startswith_def)
  then have "compress_loop (sorted_patterns (register_all [[]])) [0x41] 0 [] = None"
    by (intro compress_loop_empty_match_diverges) simp_all
  then have "compress demo_digest (register_all [[]]) [0x41] = None"
    by (simp add: compress_def)
  moreover have "compress demo_digest (register_all [[0x41]]) [0x41] =
     Some ([0xFE, 0x00],
           \<lparr>block_id = 0, original_size = 1, compressed_size = 2, compression_ratio = 1 / 2,
            layers_applied = [L8_ULTRA_EXTREME_MAPPING],
            integrity_hash = Some (demo_digest [0x41])\<rparr>)"
    by (simp add: compress_eval registry_eval)
  moreover have "\<not> length [0xFE, 0x00 :: byte] \<le> length [0x41 :: byte] + count_list [0x41] ESCAPE_BYTE"
    by (simp add: ESCAPE_BYTE_def)
  ultimately show ?thesis by blast
qed

subsection \<open>Which pattern is chosen\<close>

lemma dict_ok_init: "dict_ok (pattern_to_id registry_init)"
  by (simp add: dict_ok_def registry_init_def)

lemma register_dict_ok:
  "dict_ok (pattern_to_id r) \<Longrightarrow> dict_ok (pattern_to_id (snd (register r p)))"
  by (auto simp: dict_ok_def register_def Let_def distinct_update split: option.splits)

lemma deserialize_loop_dict_ok:
  "dict_ok (pattern_to_id r) \<Longrightarrow> dict_ok (pattern_to_id (fst (deserialize_loop n buf r)))"
  by (induction n buf r rule: deserialize_loop.induct)
     (auto simp: dict_ok_def Let_def distinct_update split: sum.splits)

lemma deserialize_dict_ok:
  "dict_ok (pattern_to_id r) \<Longrightarrow> dict_ok (pattern_to_id (fst (deserialize r data)))"
  by (auto simp: deserialize_def Let_def deserialize_loop_dict_ok split: sum.splits)

lemma sorted_patterns_sorted:
  "sorted (map (\<lambda>kv. - int (length (fst kv))) (sorted_patterns r))"
  by (simp add: sorted_patterns_def)

lemma sorted_patterns_descending:
  assumes "a < b" and "b < length (sorted_patterns r)"
  shows "length (fst (sorted_patterns r ! b)) \<le> length (fst (sorted_patterns r ! a))"
proof -
  let ?f = "\<lambda>kv :: bytes \<times> nat. - int (length (fst kv))"
  have "map ?f (sorted_patterns r) ! a \<le> map ?f (sorted_patterns r) ! b"
    using sorted_patterns_sorted assms by (intro sorted_nth_mono) simp_all
  then show ?thesis
    using assms by simp
qed

lemma first_match_longest:
  assumes "sorted (map (\<lambda>kv. - int (length (fst kv))) sp)"
    and "first_match sp data i = Some (p, pid)"
    and "(q, qid) \<in> set sp" and "startswith data q i"
  shows "length q \<le> length p"
  using assms
proof (induction sp)
  case Nil
  then show ?case by simp
next
  case (Cons kv sp)
  obtain p0 pid0 where kv: "kv = (p0, pid0)" by (cases kv)
  show ?case
  proof (cases "startswith data p0 i")
    case True
    with Cons.prems(2) kv have "p = p0" by simp
    with Cons.prems(1,3) kv show ?thesis by auto
  next
    case False
    with Cons.prems(3,4) kv have "(q, qid) \<in> set sp" by auto
    moreover from False Cons.prems(2) kv have "first_match sp data i = Some (p, pid)" by simp
    ultimately show ?thesis
      using Cons.IH Cons.prems(1,4) by simp
  qed
qed

lemma startswith_same_length:
  "startswith data p i \<Longrightarrow> startswith data q i \<Longrightarrow> length p = length q \<Longrightarrow> p = q"
  by (metis startswith_def)

lemma dict_value_unique:
  "dict_ok kvs \<Longrightarrow> (k, v) \<in> set kvs \<Longrightarrow> (k, v') \<in> set kvs \<Longrightarrow> v = v'"
  by (metis dict_ok_def map_of_is_SomeI option.inject)

lemma first_match_choice:
  assumes "dict_ok (pattern_to_id r)"
    and "first_match (sorted_patterns r) data i = Some (p, pid)"
  shows "(p, pid) \<in> set (pattern_to_id r) \<and> startswith data p i \<and>
         (\<forall>(q, qid) \<in> set (pattern_to_id r). startswith data q i \<longrightarrow>
            length q \<le> length p \<and> (length q = length p \<longrightarrow> q = p \<and> pid \<le> qid))"
proof -
  from first_match_Some [OF assms(2)]
  have mem: "(p, pid) \<in> set (pattern_to_id r)" and sw: "startswith data p i"
    by (simp_all add: set_sorted_patterns)
  have "length q \<le> length p \<and> (length q = length p \<longrightarrow> q = p \<and> pid \<le> qid)"
    if q: "(q, qid) \<in> set (pattern_to_id r)" and swq: "startswith data q i" for q qid
  proof
    show "length q \<le> length p"
      using first_match_longest [OF sorted_patterns_sorted assms(2) _ swq] q
      by (simp add: set_sorted_patterns)
    show "length q = length p \<longrightarrow> q = p \<and> pid \<le> qid"
    proof
      assume "length q = length p"
      with sw swq have "q = p"
        by (metis startswith_same_length)
      moreover from this q mem assms(1) have "qid = pid"
        by (metis dict_value_unique)
      ultimately show "q = p \<and> pid \<le> qid" by simp
    qed
  qed
  with mem sw show ?thesis by blast
qed

lemma first_match_order_independent:
  assumes d1: "dict_ok (pattern_to_id r1)" and d2: "dict_ok (pattern_to_id r2)"
    and same: "set (pattern_to_id r1) = set (pattern_to_id r2)"
  shows "first_match (sorted_patterns r1) data i = first_match (sorted_patterns r2) data i"
proof (cases "first_match (sorted_patterns r1) data i")
  case None
  then have "first_match (sorted_patterns r2) data i = None"
    using same by (simp add: first_match_None_iff set_sorted_patterns)
  with None show ?thesis by simp
next
  case (Some m1)
  obtain p1 pid1 where m1: "m1 = (p1, pid1)" by (cases m1)
  note c1 = first_match_choice [OF d1 Some [unfolded m1]]
  from c1 same have "(p1, pid1) \<in> set (sorted_patterns r2)" "startswith data (fst (p1, pid1)) i"
    by (simp_all add: set_sorted_patterns)
  then have "first_match (sorted_patterns r2) data i \<noteq> None"
    unfolding first_match_None_iff by blast
  then obtain p2 pid2 where s2: "first_match (sorted_patterns r2) data i = Some (p2, pid2)"
    by auto
  note c2 = first_match_choice [OF d2 s2]
  have "length p1 \<le> length p2"
    using c1 c2 same by blast
  moreover have "length p2 \<le> length p1"
    using c1 c2 same by blast
  ultimately have "length p2 = length p1" by simp
  with c1 c2 same have "p2 = p1"
    by (metis startswith_same_length)
  moreover from this c1 c2 same d1 have "pid2 = pid1"
    by (metis dict_value_unique)
  ultimately show ?thesis
    using Some m1 s2 by simp
qed

lemma compress_loop_cong_le:
  assumes "compress_loop sp1 data i out = Some y"
    and "\<And>j. first_match sp1 data j = first_match sp2 data j"
  shows "compress_loop sp2 data i out = Some y"
proof -
  have "(\<forall>j. first_match sp1 data j = first_match sp2 data j) \<longrightarrow>
        compress_loop sp2 data i out = Some y"
  proof (rule compress_loop.raw_induct
      [where P = "\<lambda>sp data i out y. (\<forall>j. first_match sp data j = first_match sp2 data j) \<longrightarrow>
         compress_loop sp2 data i out = Some y", OF _ assms(1)])
    fix loop :: "(bytes \<times> nat) list \<Rightarrow> bytes \<Rightarrow> nat \<Rightarrow> bytes \<Rightarrow> bytes option"
    fix sp data i out y
    assume IH: "\<And>sp data i out y. loop sp data i out = Some y \<Longrightarrow>
        (\<forall>j. first_match sp data j = first_match sp2 data j) \<longrightarrow>
        compress_loop sp2 data i out = Some y"
    assume step: "(if i < length data
         then case first_match sp data i of
                None \<Rightarrow> loop sp data (i + 1) (out @ [data ! i])
              | Some (pattern, pid) \<Rightarrow>
                  loop sp data (i + length pattern) (out @ [ESCAPE_BYTE] @ varint_encode pid)
         else Some out) = Some y"
    show "(\<forall>j. first_match sp data j = first_match sp2 data j) \<longrightarrow>
        compress_loop sp2 data i out = Some y"
    proof
      assume eq: "\<forall>j. first_match sp data j = first_match sp2 data j"
      show "compress_loop sp2 data i out = Some y"
      proof (cases "i < length data")
        case False
        with step show ?thesis by (simp add: compress_loop_done)
      next
        case True
        show ?thesis
        proof (cases "first_match sp data i")
          case None
          with step True have "loop sp data (i + 1) (out @ [data ! i]) = Some y" by simp
          from IH [OF this] eq have "compress_loop sp2 data (i + 1) (out @ [data ! i]) = Some y"
            by blast
          moreover have "first_match sp2 data i = None" using None eq by simp
          ultimately show ?thesis using True by (simp add: compress_loop_literal)
        next
          case (Some m)
          obtain p pid where m: "m = (p, pid)" by (cases m)
          with step True Some
          have "loop sp data (i + length p) (out @ [ESCAPE_BYTE] @ varint_encode pid) = Some y"
            by simp
          from IH [OF this] eq
          have "compress_loop sp2 data (i + length p) (out @ [ESCAPE_BYTE] @ varint_encode pid) = Some y"
            by blast
          moreover have "first_match sp2 data i = Some (p, pid)" using Some m eq by simp
          ultimately show ?thesis using True by (simp add: compress_loop_pointer)
        qed
      qed
    qed
  qed
  with assms(2) show ?thesis by blast
qed

lemma compress_loop_cong:
  assumes "\<And>j. first_match sp1 data j = first_match sp2 data j"
  shows "compress_loop sp1 data i out = compress_loop sp2 data i out"
proof (cases "compress_loop sp1 data i out")
  case (Some y)
  with compress_loop_cong_le [OF Some assms] show ?thesis by simp
next
  case None
  show ?thesis
  proof (cases "compress_loop sp2 data i out")
    case (Some y)
    from compress_loop_cong_le [OF Some assms [symmetric]] None show ?thesis by simp
  next
    case None': None
    with None show ?thesis by simp
  qed
qed

lemma first_match_is_best:
  assumes d: "dict_ok (pattern_to_id r)"
    and mem: "(p, pid) \<in> set (pattern_to_id r)" and sw: "startswith data p i"
    and best: "\<forall>(q, qid) \<in> set (pattern_to_id r). startswith data q i \<longrightarrow>
        length q < length p \<or> (length q = length p \<and> pid \<le> qid)"
  shows "first_match (sorted_patterns r) data i = Some (p, pid)"
proof -
  from mem sw have "(p, pid) \<in> set (sorted_patterns r)" "startswith data (fst (p, pid)) i"
    by (simp_all add: set_sorted_patterns)
  then have "first_match (sorted_patterns r) data i \<noteq> None"
    unfolding first_match_None_iff by blast
  then obtain p' pid' where fm: "first_match (sorted_patterns r) data i = Some (p', pid')"
    by auto
  note c = first_match_choice [OF d fm]
  from c mem sw have "length p \<le> length p'"
    by blast
  moreover from c best have "length p' \<le> length p"
    by fastforce
  ultimately have "length p' = length p"
    by simp
  with c sw have "p' = p"
    by (metis startswith_same_length)
  moreover from this c mem d have "pid' = pid"
    by (metis dict_value_unique)
  ultimately show ?thesis
    using fm by simp
qed

lemma first_match_None_occurs:
  "first_match (sorted_patterns r) data i = None \<longleftrightarrow> \<not> pattern_occurs r data i"
  by (simp add: first_match_None_iff pattern_occurs_def set_sorted_patterns)

lemma spec_encoding_compress_loop:
  assumes d: "dict_ok (pattern_to_id r)"
  shows "spec_encoding r data i res \<Longrightarrow>
         compress_loop (sorted_patterns r) data i out = Some (out @ res)"
proof (induction arbitrary: out rule: spec_encoding.induct)
  case (finished i)
  then show ?case by (simp add: compress_loop_done)
next
  case (literal i res)
  from literal.hyps(2) have "first_match (sorted_patterns r) data i = None"
    by (simp add: first_match_None_occurs)
  with literal.hyps(1) literal.IH [of "out @ [data ! i]"] show ?case
    by (simp add: compress_loop_literal)
next
  case (pointer i pattern pid res)
  from first_match_is_best [OF d pointer.hyps(2,3,4)]
  have "first_match (sorted_patterns r) data i = Some (pattern, pid)" .
  with pointer.hyps(1) pointer.IH [of "out @ [ESCAPE_BYTE] @ varint_encode pid"] show ?case
    by (simp add: compress_loop_pointer)
qed

lemma compress_loop_spec_encoding:
  assumes d: "dict_ok (pattern_to_id r)"
    and run: "compress_loop (sorted_patterns r) data i out = Some y"
  shows "\<exists>res. y = out @ res \<and> spec_encoding r data i res"
proof -
  let ?P = "\<lambda>sp data i out y. sp = sorted_patterns r \<longrightarrow>
      (\<exists>res. y = out @ res \<and> spec_encoding r data i res)"
  have "?P (sorted_patterns r) data i out y"
  proof (rule compress_loop.raw_induct [where P = ?P, OF _ run])
    fix loop :: "(bytes \<times> nat) list \<Rightarrow> bytes \<Rightarrow> nat \<Rightarrow> bytes \<Rightarrow> bytes option"
    fix sp data i out y
    assume IH: "\<And>sp data i out y. loop sp data i out = Some y \<Longrightarrow> ?P sp data i out y"
    assume step: "(if i < length data
         then case first_match sp data i of
                None \<Rightarrow> loop sp data (i + 1) (out @ [data ! i])
              | Some (pattern, pid) \<Rightarrow>
                  loop sp data (i + length pattern) (out @ [ESCAPE_BYTE] @ varint_encode pid)
         else Some out) = Some y"
    show "?P sp data i out y"
    proof
      assume sp: "sp = sorted_patterns r"
      show "\<exists>res. y = out @ res \<and> spec_encoding r data i res"
      proof (cases "i < length data")
        case False
        with step have "y = out @ []" by simp
        moreover from False have "spec_encoding r data i []"
          by (intro spec_encoding.finished) simp
        ultimately show ?thesis by blast
      next
        case True
        show ?thesis
        proof (cases "first_match sp data i")
          case None
          with step True have "loop sp data (i + 1) (out @ [data ! i]) = Some y"
            by simp
          from IH [OF this] sp obtain res where y: "y = (out @ [data ! i]) @ res"
            and e: "spec_encoding r data (i + 1) res"
            by blast
          from None sp have "\<not> pattern_occurs r data i"
            by (simp add: first_match_None_occurs)
          with True e have "spec_encoding r data i (data ! i # res)"
            by (intro spec_encoding.literal)
          with y show ?thesis by simp
        next
          case (Some m)
          obtain p pid where m: "m = (p, pid)" by (cases m)
          with step True Some
          have "loop sp data (i + length p) (out @ [ESCAPE_BYTE] @ varint_encode pid) = Some y"
            by simp
          from IH [OF this] sp
          obtain res where y: "y = (out @ [ESCAPE_BYTE] @ varint_encode pid) @ res"
            and e: "spec_encoding r data (i + length p) res"
            by blast
          from Some m sp have fm: "first_match (sorted_patterns r) data i = Some (p, pid)"
            by simp
          note c = first_match_choice [OF d fm]
          have best: "\<forall>(q, qid) \<in> set (pattern_to_id r). startswith data q i \<longrightarrow>
              length q < length p \<or> (length q = length p \<and> pid \<le> qid)"
            using c by fastforce
          from c have "(p, pid) \<in> set (pattern_to_id r)" and "startswith data p i"
            by blast+
          with True best e
          have "spec_encoding r data i (ESCAPE_BYTE # varint_encode pid @ res)"
            by (intro spec_encoding.pointer)
          with y show ?thesis by simp
        qed
      qed
    qed
  qed
  then show ?thesis by simp
qed

lemma compress_iff_spec_encoding:
  assumes "dict_ok (pattern_to_id r)"
  shows "(\<exists>m. compress H r data = Some (out, m)) = spec_encoding r data 0 out"
proof
  assume "\<exists>m. compress H r data = Some (out, m)"
  then have "compress_loop (sorted_patterns r) data 0 [] = Some out"
    by (auto simp: compress_def split: option.splits)
  from compress_loop_spec_encoding [OF assms this] show "spec_encoding r data 0 out"
    by simp
next
  assume "spec_encoding r data 0 out"
  from spec_encoding_compress_loop [OF assms this, of "[]"]
  show "\<exists>m. compress H r data = Some (out, m)"
    by (simp add: compress_def)
qed

lemma spec_encoding_unique:
  assumes "dict_ok (pattern_to_id r)"
    and "spec_encoding r data i res" and "spec_encoding r data i res'"
  shows "res = res'"
  using spec_encoding_compress_loop [OF assms(1,2), of "[]"]
    spec_encoding_compress_loop [OF assms(1,3), of "[]"]
  by simp

text \<open>
  C5. \<^verbatim>\<open>compress\<close> is deterministic, and what it emits is fixed by the choice the spec
  describes. The candidate list is in descending order of length, so longer patterns
  are tried before shorter ones. The pattern chosen at a position is a registered
  pattern that occurs there and is at least as long as every other registered pattern
  that occurs there; among the registered patterns of that same length that occur there
  it has the smallest identifier (it is the only one, since two patterns of one length
  that occur at one position are equal). \<^verbatim>\<open>compress\<close> returns the bytes \<open>out\<close> exactly when
  \<open>out\<close> is the encoding in the words of the spec: the marker byte and the identifier of
  the longest pattern, least identifier first, wherever a registered pattern occurs at the
  scan position, the byte itself elsewhere. That encoding is unique, so the same registry
  and input always give the same bytes; and two registries that hold the same entries, in
  whatever order their dictionaries iterate, give the same output and metadata. The
  hypothesis is no restriction on the program: it says that the association list is a
  dictionary, each key once, which holds of the fresh registry and is kept by
  \<^verbatim>\<open>register\<close> and \<^verbatim>\<open>deserialize\<close> (\<open>dict_ok_init\<close>, \<open>register_dict_ok\<close>,
  \<open>deserialize_dict_ok\<close>).
\<close>

theorem compress_deterministic_choice:
  assumes "dict_ok (pattern_to_id r)"
  shows "(a < b \<and> b < length (sorted_patterns r) \<longrightarrow>
            length (fst (sorted_patterns r ! b)) \<le> length (fst (sorted_patterns r ! a))) \<and>
         (first_match (sorted_patterns r) data i = Some (p, pid) \<longrightarrow>
            (p, pid) \<in> set (pattern_to_id r) \<and> startswith data p i \<and>
            (\<forall>(q, qid) \<in> set (pattern_to_id r). startswith data q i \<longrightarrow>
               length q \<le> length p \<and> (length q = length p \<longrightarrow> q = p \<and> pid \<le> qid))) \<and>
         ((\<exists>m. compress H r data' = Some (out, m)) = spec_encoding r data' 0 out) \<and>
         (spec_encoding r data' 0 out \<and> spec_encoding r data' 0 out' \<longrightarrow> out = out') \<and>
         (dict_ok (pattern_to_id r') \<and> set (pattern_to_id r') = set (pattern_to_id r) \<longrightarrow>
            compress H r' data' = compress H r data')"
proof (intro conjI impI)
  assume "a < b \<and> b < length (sorted_patterns r)"
  then show "length (fst (sorted_patterns r ! b)) \<le> length (fst (sorted_patterns r ! a))"
    by (simp add: sorted_patterns_descending)
next
  assume fm: "first_match (sorted_patterns r) data i = Some (p, pid)"
  from first_match_choice [OF assms fm]
  show "(p, pid) \<in> set (pattern_to_id r)" and "startswith data p i"
    and "\<forall>(q, qid) \<in> set (pattern_to_id r). startswith data q i \<longrightarrow>
               length q \<le> length p \<and> (length q = length p \<longrightarrow> q = p \<and> pid \<le> qid)"
    by blast+
next
  show "(\<exists>m. compress H r data' = Some (out, m)) = spec_encoding r data' 0 out"
    using assms by (rule compress_iff_spec_encoding)
next
  assume "spec_encoding r data' 0 out \<and> spec_encoding r data' 0 out'"
  then show "out = out'"
    using spec_encoding_unique [OF assms] by blast
next
  assume a: "dict_ok (pattern_to_id r') \<and> set (pattern_to_id r') = set (pattern_to_id r)"
  have "compress_loop (sorted_patterns r') data' 0 [] = compress_loop (sorted_patterns r) data' 0 []"
    using a assms by (intro compress_loop_cong first_match_order_independent) simp_all
  then show "compress H r' data' = compress H r data'"
    by (simp add: compress_def)
qed

theorem compress_deterministic_choice_witness:
  "dict_ok (pattern_to_id (register_all [[0x41, 0x41], [0x41, 0x42], [0x41]])) \<and>
   sorted_patterns (register_all [[0x41, 0x41], [0x41, 0x42], [0x41]]) =
     [([0x41, 0x41], 0), ([0x41, 0x42], 1), ([0x41], 2)] \<and>
   first_match (sorted_patterns (register_all [[0x41, 0x41], [0x41, 0x42], [0x41]]))
     [0x41, 0x42, 0x41] 0 = Some ([0x41, 0x42], 1) \<and>
   length (fst (sorted_patterns (register_all [[0x41, 0x41], [0x41, 0x42], [0x41]]) ! 2)) \<le>
     length (fst (sorted_patterns (register_all [[0x41, 0x41], [0x41, 0x42], [0x41]]) ! 0)) \<and>
   startswith [0x41, 0x42, 0x41] [0x41, 0x42] 0 \<and>
   compress demo_digest (register_all [[0x41, 0x41], [0x41, 0x42], [0x41]]) [0x41, 0x42, 0x41] =
     Some ([0xFE, 0x01, 0xFE, 0x02],
           \<lparr>block_id = 0, original_size = 3, compressed_size = 4, compression_ratio = 3 / 4,
            layers_applied = [L8_ULTRA_EXTREME_MAPPING],
            integrity_hash = Some (demo_digest [0x41, 0x42, 0x41])\<rparr>) \<and>
   spec_encoding (register_all [[0x41, 0x41], [0x41, 0x42], [0x41]]) [0x41, 0x42, 0x41] 0
     [0xFE, 0x01, 0xFE, 0x02] \<and>
   compress demo_digest
     \<lparr>pattern_to_id = [([0x41], 2), ([0x41, 0x42], 1), ([0x41, 0x41], 0)],
      id_to_pattern = [(2, [0x41]), (1, [0x41, 0x42]), (0, [0x41, 0x41])],
      next_id = 3\<rparr> [0x41, 0x42, 0x41] =
   compress demo_digest (register_all [[0x41, 0x41], [0x41, 0x42], [0x41]]) [0x41, 0x42, 0x41]"
proof -
  let ?r = "register_all [[0x41, 0x41], [0x41, 0x42], [0x41]]"
  let ?r' = "\<lparr>pattern_to_id = [([0x41], 2), ([0x41, 0x42], 1), ([0x41, 0x41 :: byte], 0 :: nat)],
      id_to_pattern = [(2 :: nat, [0x41]), (1, [0x41, 0x42]), (0, [0x41, 0x41 :: byte])],
      next_id = 3\<rparr>"
  let ?m = "\<lparr>block_id = 0, original_size = 3, compressed_size = 4, compression_ratio = 3 / 4,
            layers_applied = [L8_ULTRA_EXTREME_MAPPING],
            integrity_hash = Some (demo_digest [0x41, 0x42, 0x41])\<rparr>"
  have r: "?r = \<lparr>pattern_to_id = [([0x41, 0x41], 0), ([0x41, 0x42], 1), ([0x41], 2)],
      id_to_pattern = [(0, [0x41, 0x41]), (1, [0x41, 0x42]), (2, [0x41])], next_id = 3\<rparr>"
    by (simp add: registry_eval)
  have h: "dict_ok (pattern_to_id ?r)"
    by (simp add: r dict_ok_def)
  have sp: "sorted_patterns ?r = [([0x41, 0x41], 0), ([0x41, 0x42], 1), ([0x41], 2)]"
    by (simp add: r sorted_patterns_def)
  have fm: "first_match (sorted_patterns ?r) [0x41, 0x42, 0x41] 0 = Some ([0x41, 0x42], 1)"
    by (simp add: sp startswith_def)
  have ab: "(0 :: nat) < 2 \<and> 2 < length (sorted_patterns ?r)"
    by (simp add: sp)
  have h': "dict_ok (pattern_to_id ?r') \<and> set (pattern_to_id ?r') = set (pattern_to_id ?r)"
    by (auto simp: r dict_ok_def)
  have c: "compress demo_digest ?r [0x41, 0x42, 0x41] = Some ([0xFE, 0x01, 0xFE, 0x02], ?m)"
    by (simp add: compress_eval r)
  note t = compress_deterministic_choice [OF h, of 0 2 "[0x41, 0x42, 0x41]" 0 "[0x41, 0x42]" 1
      demo_digest "[0x41, 0x42, 0x41]" "[0xFE, 0x01, 0xFE, 0x02]" "[0xFE, 0x01, 0xFE, 0x02]" ?r']
  from t c have e: "spec_encoding ?r [0x41, 0x42, 0x41] 0 [0xFE, 0x01, 0xFE, 0x02]"
    by blast
  from t h sp fm ab h' c e show ?thesis
    by blast
qed

subsection \<open>The integrity check\<close>

text \<open>
  C4. Once the scan of \<^verbatim>\<open>decompress\<close> has rebuilt its output, and the metadata has an
  integrity hash (a non-empty byte string: the test of the source is Python's truth
  value, and a digest is never empty), a digest of the rebuilt bytes that differs from it
  makes \<^verbatim>\<open>decompress\<close> fail with \<^verbatim>\<open>IntegrityError\<close>. Whenever \<^verbatim>\<open>decompress\<close> returns
  bytes under such metadata, they are the bytes the scan rebuilt and their digest is the
  recorded hash.
\<close>

theorem decompress_integrity_gate:
  "(decompress_loop r data 0 [] = Inr result \<and> hash_present m \<and>
      integrity_hash m \<noteq> Some (H result) \<longrightarrow>
        decompress H r data m = Inl IntegrityError) \<and>
   (decompress H r data m = Inr out \<and> hash_present m \<longrightarrow>
      decompress_loop r data 0 [] = Inr out \<and> integrity_hash m = Some (H out))"
  by (auto simp: decompress_def split: sum.splits if_splits)

theorem decompress_integrity_gate_witness:
  "hash_present \<lparr>block_id = 0, original_size = 2, compressed_size = 2, compression_ratio = 1,
      layers_applied = [L8_ULTRA_EXTREME_MAPPING], integrity_hash = Some [0x07]\<rparr> \<and>
   decompress_loop (register_all [[0x41, 0x41]]) [0xFE, 0x00] 0 [] = Inr [0x41, 0x41] \<and>
   decompress demo_digest (register_all [[0x41, 0x41]]) [0xFE, 0x00]
     \<lparr>block_id = 0, original_size = 2, compressed_size = 2, compression_ratio = 1,
      layers_applied = [L8_ULTRA_EXTREME_MAPPING], integrity_hash = Some [0x07]\<rparr> =
     Inl IntegrityError \<and>
   hash_present \<lparr>block_id = 0, original_size = 2, compressed_size = 2, compression_ratio = 1,
      layers_applied = [L8_ULTRA_EXTREME_MAPPING],
      integrity_hash = Some (demo_digest [0x41, 0x41])\<rparr> \<and>
   decompress demo_digest (register_all [[0x41, 0x41]]) [0xFE, 0x00]
     \<lparr>block_id = 0, original_size = 2, compressed_size = 2, compression_ratio = 1,
      layers_applied = [L8_ULTRA_EXTREME_MAPPING],
      integrity_hash = Some (demo_digest [0x41, 0x41])\<rparr> = Inr [0x41, 0x41]"
proof -
  let ?r = "register_all [[0x41, 0x41]]"
  let ?bad = "\<lparr>block_id = 0, original_size = 2, compressed_size = 2, compression_ratio = 1,
      layers_applied = [L8_ULTRA_EXTREME_MAPPING], integrity_hash = Some [0x07]\<rparr>"
  let ?good = "\<lparr>block_id = 0, original_size = 2, compressed_size = 2, compression_ratio = 1,
      layers_applied = [L8_ULTRA_EXTREME_MAPPING],
      integrity_hash = Some (demo_digest [0x41, 0x41])\<rparr>"
  have scan: "decompress_loop ?r [0xFE, 0x00] 0 [] = Inr [0x41, 0x41]"
    by (simp add: decompress_eval registry_eval)
  have p1: "hash_present ?bad" and p2: "hash_present ?good"
    by (simp_all add: hash_present_def demo_digest_def)
  have ne: "integrity_hash ?bad \<noteq> Some (demo_digest [0x41, 0x41])"
    by (simp add: demo_digest_def)
  have ok: "decompress demo_digest ?r [0xFE, 0x00] ?good = Inr [0x41, 0x41]"
    by (simp add: decompress_def scan p2)
  from decompress_integrity_gate [of ?r "[0xFE, 0x00]" "[0x41, 0x41]" ?bad demo_digest "[0x41, 0x41]"]
    decompress_integrity_gate [of ?r "[0xFE, 0x00]" "[0x41, 0x41]" ?good demo_digest "[0x41, 0x41]"]
    scan p1 p2 ne ok
  show ?thesis by blast
qed

subsection \<open>Metadata of the engine wrapper\<close>

text \<open>
  C9. Let \<^verbatim>\<open>compress\<close> return the intermediate bytes with the partial metadata, and the
  inner engine return its final bytes with its metadata. If the final bytes equal the
  intermediate bytes, \<^verbatim>\<open>compress_block\<close> returns the intermediate bytes with the partial
  metadata, whose \<^verbatim>\<open>original_size\<close> is set to the length of the input and whose
  \<^verbatim>\<open>integrity_hash\<close> is set to the digest of the input; its \<^verbatim>\<open>layers_applied\<close> is layer 8
  alone. Otherwise it returns the final bytes with the metadata of the inner engine,
  layer 8 put in front of its \<^verbatim>\<open>layers_applied\<close>, and \<^verbatim>\<open>original_size\<close> and
  \<^verbatim>\<open>integrity_hash\<close> set in the same way.
\<close>

theorem compress_block_metadata:
  assumes "compress H r data = Some (intermediate, partial_meta)"
    and "inner intermediate = Inr (final, pipeline_meta)"
  shows "\<exists>m. compress_block H inner r data =
               Some (Inr (if final = intermediate then intermediate else final, m)) \<and>
             original_size m = length data \<and>
             integrity_hash m = Some (H data) \<and>
             (final = intermediate \<longrightarrow>
                m = partial_meta\<lparr>original_size := length data, integrity_hash := Some (H data)\<rparr> \<and>
                layers_applied m = [L8_ULTRA_EXTREME_MAPPING]) \<and>
             (final \<noteq> intermediate \<longrightarrow>
                m = pipeline_meta
                      \<lparr>layers_applied := L8_ULTRA_EXTREME_MAPPING # layers_applied pipeline_meta,
                       original_size := length data,
                       integrity_hash := Some (H data)\<rparr>)"
proof (cases "final = intermediate")
  case True
  have "layers_applied partial_meta = [L8_ULTRA_EXTREME_MAPPING]"
    using assms(1) by (auto simp: compress_def split: option.splits)
  with True assms show ?thesis
    by (simp add: compress_block_def)
next
  case False
  with assms show ?thesis
    by (simp add: compress_block_def)
qed

theorem compress_block_metadata_witness:
  "compress_block demo_digest demo_pipeline_unchanged
     (register_all [[0x41, 0x41, 0x41, 0x41]]) [0x41, 0x41, 0x41, 0x41, 0x42] =
     Some (Inr ([0xFE, 0x00, 0x42],
                \<lparr>block_id = 0, original_size = 5, compressed_size = 3, compression_ratio = 5 / 3,
                 layers_applied = [L8_ULTRA_EXTREME_MAPPING],
                 integrity_hash = Some (demo_digest [0x41, 0x41, 0x41, 0x41, 0x42])\<rparr>)) \<and>
   compress_block demo_digest demo_pipeline_changed
     (register_all [[0x41, 0x41, 0x41, 0x41]]) [0x41, 0x41, 0x41, 0x41, 0x42] =
     Some (Inr ([0x01, 0xFE, 0x00, 0x42],
                \<lparr>block_id = 7, original_size = 5, compressed_size = 4, compression_ratio = 1,
                 layers_applied =
                   [L8_ULTRA_EXTREME_MAPPING, L1_SEMANTIC_MAPPING, L3_DELTA_ENCODING],
                 integrity_hash = Some (demo_digest [0x41, 0x41, 0x41, 0x41, 0x42])\<rparr>))"
proof -
  let ?r = "register_all [[0x41, 0x41, 0x41, 0x41]]"
  let ?d = "[0x41, 0x41, 0x41, 0x41, 0x42] :: bytes"
  let ?pm = "\<lparr>block_id = 0, original_size = 5, compressed_size = 3, compression_ratio = 5 / 3,
             layers_applied = [L8_ULTRA_EXTREME_MAPPING],
             integrity_hash = Some (demo_digest ?d)\<rparr>"
  have c: "compress demo_digest ?r ?d = Some ([0xFE, 0x00, 0x42], ?pm)"
    by (simp add: compress_eval registry_eval)
  have i1: "demo_pipeline_unchanged [0xFE, 0x00, 0x42] =
      Inr ([0xFE, 0x00, 0x42], \<lparr>block_id = 7, original_size = 3, compressed_size = 3,
        compression_ratio = 1, layers_applied = [],
        integrity_hash = Some (demo_digest [0xFE, 0x00, 0x42])\<rparr>)"
    by (simp add: demo_pipeline_unchanged_def)
  have i2: "demo_pipeline_changed [0xFE, 0x00, 0x42] =
      Inr ([0x01, 0xFE, 0x00, 0x42], \<lparr>block_id = 7, original_size = 3, compressed_size = 4,
        compression_ratio = 1, layers_applied = [L1_SEMANTIC_MAPPING, L3_DELTA_ENCODING],
        integrity_hash = Some (demo_digest [0xFE, 0x00, 0x42])\<rparr>)"
    by (simp add: demo_pipeline_changed_def)
  from compress_block_metadata [where inner = demo_pipeline_unchanged, OF c i1]
    compress_block_metadata [where inner = demo_pipeline_changed, OF c i2]
  show ?thesis by auto
qed

subsection \<open>Packing and unpacking\<close>

lemma length_be32 [simp]: "length (be32 n) = 4"
  by (simp add: be32_def)

lemma pack_u32_be32: "n < 2 ^ 32 \<Longrightarrow> pack_u32 n = Inr (be32 n)"
  by (simp add: pack_u32_def be32_def)

lemma pack_u32_Inr: "pack_u32 n = Inr bs \<Longrightarrow> n < 2 ^ 32 \<and> bs = be32 n"
  by (auto simp: pack_u32_def be32_def split: if_splits)

lemma be32_value:
  assumes "n < 2 ^ 32"
  shows "n div 2 ^ 24 mod 256 * 2 ^ 24 + n div 2 ^ 16 mod 256 * 2 ^ 16 +
         n div 2 ^ 8 mod 256 * 2 ^ 8 + n mod 256 = (n :: nat)"
proof -
  define q1 q2 q3 where "q1 = n div 256" and "q2 = q1 div 256" and "q3 = q2 div 256"
  have e1: "n div 256 = q1"
    by (simp add: q1_def)
  have e2: "n div 65536 = q2"
    by (simp add: q1_def q2_def div_mult2_eq [symmetric])
  have e3: "n div 16777216 = q3"
    by (simp add: q1_def q2_def q3_def div_mult2_eq [symmetric])
  have "q3 < 256"
    using assms unfolding e3 [symmetric] by (simp add: less_mult_imp_div_less)
  then have m3: "q3 mod 256 = q3"
    by simp
  have d1: "n = q1 * 256 + n mod 256"
    by (simp add: q1_def)
  have d2: "q1 = q2 * 256 + q1 mod 256"
    by (simp add: q2_def)
  have d3: "q2 = q3 * 256 + q2 mod 256"
    by (simp add: q3_def)
  have "q3 * 16777216 + q2 mod 256 * 65536 + q1 mod 256 * 256 + n mod 256 = n"
    using d1 d2 d3 by linarith
  then have "n div 16777216 * 16777216 + n div 65536 mod 256 * 65536 +
      n div 256 mod 256 * 256 + n mod 256 = n"
    unfolding e1 e2 e3 .
  then show ?thesis
    using m3 e3 by simp
qed

lemma unpack_u32_be32: "n < 2 ^ 32 \<Longrightarrow> unpack_u32 (be32 n) = Inr n"
  using be32_value [of n]
  by (simp add: unpack_u32_def be32_def unat_of_nat)

lemma unpack_u32_short: "length bs < 4 \<Longrightarrow> unpack_u32 bs = Inl StructError"
  by (auto simp: unpack_u32_def split: list.splits)

lemma unpack_u32_full: "length bs = 4 \<Longrightarrow> \<exists>n. unpack_u32 bs = Inr n"
  by (auto simp: unpack_u32_def split: list.splits)

subsection \<open>Snapshots\<close>

lemma encode_entries_Cons:
  "encode_entries ((pid, pat) # es) = be32 pid @ be32 (length pat) @ pat @ encode_entries es"
  by (simp add: encode_entries_def)

lemma encode_entries_Nil [simp]: "encode_entries [] = []"
  by (simp add: encode_entries_def)

lemma entries_fit_Cons:
  "entries_fit ((pid, pat) # es) \<longleftrightarrow> pid < 2 ^ 32 \<and> length pat < 2 ^ 32 \<and> entries_fit es"
  by (simp add: entries_fit_def)

lemma serialize_entries_Inr:
  "serialize_entries es out = Inr bs \<Longrightarrow> entries_fit es \<and> bs = out @ encode_entries es"
proof (induction es arbitrary: out)
  case Nil
  then show ?case by (simp add: entries_fit_def)
next
  case (Cons e es)
  obtain pid pat where e: "e = (pid, pat)" by (cases e)
  from Cons.prems e obtain b1 b2 where
    p1: "pack_u32 pid = Inr b1" and p2: "pack_u32 (length pat) = Inr b2"
    and rest: "serialize_entries es (out @ b1 @ b2 @ pat) = Inr bs"
    by (auto split: sum.splits)
  from pack_u32_Inr [OF p1] pack_u32_Inr [OF p2] Cons.IH [OF rest] e
  show ?case
    by (simp add: entries_fit_Cons encode_entries_Cons)
qed

lemma serialize_Inr:
  assumes "serialize r = Inr bs"
  shows "length (id_to_pattern r) < 2 ^ 32 \<and> entries_fit (id_to_pattern r) \<and>
         bs = be32 (length (id_to_pattern r)) @ encode_entries (id_to_pattern r)"
proof -
  from assms obtain hdr where h: "pack_u32 (length (id_to_pattern r)) = Inr hdr"
    and e: "serialize_entries (id_to_pattern r) hdr = Inr bs"
    by (auto simp: serialize_def split: sum.splits)
  from pack_u32_Inr [OF h] serialize_entries_Inr [OF e] show ?thesis
    by simp
qed

lemma deserialize_loop_record:
  assumes "pid < 2 ^ 32" and "length pat < 2 ^ 32"
  shows "deserialize_loop (Suc n) (be32 pid @ be32 (length pat) @ pat @ rest) r =
         deserialize_loop n rest (merge_entry (pid, pat) r)"
  using assms by (simp add: unpack_u32_be32 merge_entry_def)

lemma deserialize_loop_complete:
  "entries_fit es \<Longrightarrow>
   deserialize_loop (length es + k) (encode_entries es @ rest) r =
     deserialize_loop k rest (fold merge_entry es r)"
proof (induction es arbitrary: r)
  case Nil
  then show ?case by simp
next
  case (Cons e es)
  obtain pid pat where e: "e = (pid, pat)" by (cases e)
  from Cons.prems e have fit: "pid < 2 ^ 32" "length pat < 2 ^ 32" "entries_fit es"
    by (simp_all add: entries_fit_Cons)
  have "deserialize_loop (length (e # es) + k) (encode_entries (e # es) @ rest) r =
        deserialize_loop (Suc (length es + k))
          (be32 pid @ be32 (length pat) @ pat @ (encode_entries es @ rest)) r"
    by (simp add: e encode_entries_Cons)
  also have "\<dots> = deserialize_loop (length es + k) (encode_entries es @ rest)
                     (merge_entry (pid, pat) r)"
    using fit(1,2) by (rule deserialize_loop_record)
  also have "\<dots> = deserialize_loop k rest (fold merge_entry es (merge_entry (pid, pat) r))"
    using fit(3) by (rule Cons.IH)
  finally show ?case by (simp add: e)
qed

lemma deserialize_loop_short:
  assumes "length buf < 8"
  shows "deserialize_loop (Suc k) buf r = (r, Some StructError)"
proof (cases "length buf < 4")
  case True
  then have "unpack_u32 (take 4 buf) = Inl StructError"
    by (intro unpack_u32_short) simp
  then show ?thesis by simp
next
  case False
  then have "length (take 4 buf) = 4" by simp
  then obtain pid where pid: "unpack_u32 (take 4 buf) = Inr pid"
    using unpack_u32_full by blast
  have "unpack_u32 (take 4 (drop 4 buf)) = Inl StructError"
    using assms by (intro unpack_u32_short) simp
  with pid show ?thesis by simp
qed

lemma deserialize_count:
  "count < 2 ^ 32 \<Longrightarrow> deserialize r (be32 count @ rest) = deserialize_loop count rest r"
  by (simp add: deserialize_def unpack_u32_be32 Let_def) (simp add: be32_def)

lemma fold_merge_register_all:
  "fold merge_entry (id_to_pattern (register_all ps)) registry_init = register_all ps"
proof (induction ps rule: rev_induct)
  case Nil
  show ?case by (simp add: register_all_def registry_init_def)
next
  case (snoc p ps)
  show ?case
  proof (cases "p \<in> set ps")
    case True
    then have "register_all (ps @ [p]) = register_all ps"
      by (simp add: register_all_snoc register_known)
    with snoc show ?thesis by simp
  next
    case False
    let ?r = "register_all ps"
    let ?n = "card (set ps)"
    note new = register_new [OF False]
    note shape = register_all_shape [of ps]
    have len: "length (first_occurrences ps) = ?n"
      by (rule length_first_occurrences)
    have fresh_p: "p \<notin> fst ` set (pattern_to_id ?r)"
      using shape len False by (simp add: map_fst_zip flip: set_map)
    have fresh_n: "?n \<notin> fst ` set (id_to_pattern ?r)"
      using shape len by (simp add: map_fst_zip flip: set_map)
    have r': "register_all (ps @ [p]) =
        \<lparr>pattern_to_id = pattern_to_id ?r @ [(p, ?n)],
         id_to_pattern = id_to_pattern ?r @ [(?n, p)],
         next_id = Suc ?n\<rparr>"
      using new by (simp add: register_all_snoc)
    have "fold merge_entry (id_to_pattern (register_all (ps @ [p]))) registry_init =
          merge_entry (?n, p) ?r"
      using snoc by (simp add: r')
    also have "\<dots> = register_all (ps @ [p])"
      using fresh_p fresh_n shape by (simp add: merge_entry_def r' update_fresh)
    finally show ?thesis .
  qed
qed

lemma deserialize_loop_step:
  "0 < n \<Longrightarrow>
   deserialize_loop n buf r =
     (case unpack_u32 (take 4 buf) of
        Inl e \<Rightarrow> (r, Some e)
      | Inr pid \<Rightarrow>
          (case unpack_u32 (take 4 (drop 4 buf)) of
             Inl e \<Rightarrow> (r, Some e)
           | Inr len \<Rightarrow>
               deserialize_loop (n - 1) (drop len (drop 8 buf))
                 (merge_entry (pid, take len (drop 8 buf)) r)))"
  by (cases n) (auto simp: Let_def merge_entry_def split: sum.splits)

lemmas serialize_eval = serialize_def pack_u32_def

lemmas deserialize_eval = deserialize_def deserialize_loop_step unpack_u32_def merge_entry_def
  registry_init_def Let_def

text \<open>
  C7. Take a registry built by \<^verbatim>\<open>register\<close> calls and a snapshot that \<^verbatim>\<open>serialize\<close> returns
  for it. \<^verbatim>\<open>deserialize\<close> of the snapshot into a fresh registry raises nothing and gives
  the original registry back: both dictionaries, entry for entry, and the counter. The
  counter of the restored registry is above every identifier of the original, and
  registering a pattern that is new gives an identifier that no entry of the original
  has.
\<close>

theorem serialize_deserialize_roundtrip:
  assumes "serialize (register_all ps) = Inr bs"
  shows "deserialize registry_init bs = (register_all ps, None) \<and>
         (\<forall>pid \<in> fst ` set (id_to_pattern (register_all ps)).
            pid < next_id (fst (deserialize registry_init bs))) \<and>
         (p \<notin> set ps \<longrightarrow>
            fst (register (fst (deserialize registry_init bs)) p)
              \<notin> fst ` set (id_to_pattern (register_all ps)))"
proof -
  let ?r = "register_all ps"
  from serialize_Inr [OF assms]
  have cnt: "length (id_to_pattern ?r) < 2 ^ 32" and fit: "entries_fit (id_to_pattern ?r)"
    and bs: "bs = be32 (length (id_to_pattern ?r)) @ encode_entries (id_to_pattern ?r)"
    by simp_all
  have "deserialize registry_init bs =
        deserialize_loop (length (id_to_pattern ?r)) (encode_entries (id_to_pattern ?r)) registry_init"
    unfolding bs using cnt by (rule deserialize_count)
  also have "\<dots> = deserialize_loop 0 [] (fold merge_entry (id_to_pattern ?r) registry_init)"
    using deserialize_loop_complete [OF fit, of 0 "[]" registry_init] by simp
  also have "\<dots> = (?r, None)"
    by (simp add: fold_merge_register_all)
  finally have d: "deserialize registry_init bs = (?r, None)" .
  note shape = register_all_shape [of ps]
  have len: "length (first_occurrences ps) = card (set ps)"
    by (rule length_first_occurrences)
  have ids: "fst ` set (id_to_pattern ?r) = {0 ..< card (set ps)}"
    using shape len by (simp add: map_fst_zip flip: set_map)
  have above: "\<forall>pid \<in> fst ` set (id_to_pattern ?r). pid < next_id ?r"
    using ids shape by simp
  have fresh: "fst (register ?r p) \<notin> fst ` set (id_to_pattern ?r)" if "p \<notin> set ps"
    using register_new [OF that] ids by simp
  from d above fresh show ?thesis by simp
qed

theorem serialize_deserialize_roundtrip_witness:
  "serialize (register_all [[0x41, 0x41], [0x42]]) =
     Inr [0, 0, 0, 2, 0, 0, 0, 0, 0, 0, 0, 2, 0x41, 0x41, 0, 0, 0, 1, 0, 0, 0, 1, 0x42] \<and>
   deserialize registry_init
       [0, 0, 0, 2, 0, 0, 0, 0, 0, 0, 0, 2, 0x41, 0x41, 0, 0, 0, 1, 0, 0, 0, 1, 0x42] =
     (register_all [[0x41, 0x41], [0x42]], None) \<and>
   fst (register (fst (deserialize registry_init
       [0, 0, 0, 2, 0, 0, 0, 0, 0, 0, 0, 2, 0x41, 0x41, 0, 0, 0, 1, 0, 0, 0, 1, 0x42])) [0x43])
     \<notin> fst ` set (id_to_pattern (register_all [[0x41, 0x41], [0x42]]))"
proof -
  have s: "serialize (register_all [[0x41, 0x41], [0x42]]) =
     Inr [0, 0, 0, 2, 0, 0, 0, 0, 0, 0, 0, 2, 0x41, 0x41, 0, 0, 0, 1, 0, 0, 0, 1, 0x42]"
    by (simp add: serialize_eval registry_eval)
  have new: "[0x43] \<notin> set [[0x41, 0x41], [0x42 :: byte]]"
    by simp
  note t = serialize_deserialize_roundtrip [OF s, of "[0x43]"]
  have d: "deserialize registry_init
       [0, 0, 0, 2, 0, 0, 0, 0, 0, 0, 0, 2, 0x41, 0x41, 0, 0, 0, 1, 0, 0, 0, 1, 0x42] =
     (register_all [[0x41, 0x41], [0x42]], None)"
    by (rule conjunct1 [OF t])
  have f: "fst (register (fst (deserialize registry_init
       [0, 0, 0, 2, 0, 0, 0, 0, 0, 0, 0, 2, 0x41, 0x41, 0, 0, 0, 1, 0, 0, 0, 1, 0x42])) [0x43])
     \<notin> fst ` set (id_to_pattern (register_all [[0x41, 0x41], [0x42]]))"
    by (rule mp [OF conjunct2 [OF conjunct2 [OF t]] new])
  from s d f show ?thesis
    by (intro conjI)
qed

text \<open>
  C8, as amended. \<^verbatim>\<open>deserialize\<close> accepts the empty stream and leaves the registry as it
  is. It fails with \<^verbatim>\<open>struct.error\<close> when the stream ends inside a fixed-size field: when
  one to three bytes of the count are there, and when fewer than the eight bytes of
  identifier and length are left for a record that the count announces; the complete
  records before that one have been merged into the registry by then.
\<close>

theorem deserialize_truncated_fields:
  "deserialize r [] = (r, None) \<and>
   (0 < length data \<and> length data < 4 \<longrightarrow> deserialize r data = (r, Some StructError)) \<and>
   (count < 2 ^ 32 \<and> entries_fit es \<and> length es < count \<and> length hdr < 8 \<longrightarrow>
      deserialize r (be32 count @ encode_entries es @ hdr) =
        (fold merge_entry es r, Some StructError))"
proof (intro conjI impI)
  show "deserialize r [] = (r, None)"
    by (simp add: deserialize_def)
next
  assume a: "0 < length data \<and> length data < 4"
  then have "unpack_u32 (take 4 data) = Inl StructError"
    by (intro unpack_u32_short) simp
  moreover from a have "take 4 data \<noteq> []"
    by auto
  ultimately show "deserialize r data = (r, Some StructError)"
    by (simp add: deserialize_def Let_def)
next
  assume a: "count < 2 ^ 32 \<and> entries_fit es \<and> length es < count \<and> length hdr < 8"
  then have cnt: "count < 2 ^ 32" and fit: "entries_fit es" and lt: "length es < count"
    and short: "length hdr < 8"
    by blast+
  from lt obtain k where "count = Suc (length es + k)"
    by (rule less_imp_Suc_add [THEN exE])
  then have k: "count = length es + Suc k"
    by simp
  have "deserialize r (be32 count @ encode_entries es @ hdr) =
        deserialize_loop count (encode_entries es @ hdr) r"
    using cnt by (rule deserialize_count)
  also have "\<dots> = deserialize_loop (length es + Suc k) (encode_entries es @ hdr) r"
    by (simp only: k)
  also have "\<dots> = deserialize_loop (Suc k) hdr (fold merge_entry es r)"
    using fit by (rule deserialize_loop_complete)
  also have "\<dots> = (fold merge_entry es r, Some StructError)"
    using short by (rule deserialize_loop_short)
  finally show "deserialize r (be32 count @ encode_entries es @ hdr) =
        (fold merge_entry es r, Some StructError)" .
qed

theorem deserialize_truncated_fields_witness:
  "deserialize registry_init [0, 0] = (registry_init, Some StructError) \<and>
   entries_fit [(0, [0x41, 0x41])] \<and>
   be32 2 @ encode_entries [(0, [0x41, 0x41])] @ [0, 0, 0, 1, 0, 0] =
     [0, 0, 0, 2, 0, 0, 0, 0, 0, 0, 0, 2, 0x41, 0x41, 0, 0, 0, 1, 0, 0] \<and>
   deserialize registry_init [0, 0, 0, 2, 0, 0, 0, 0, 0, 0, 0, 2, 0x41, 0x41, 0, 0, 0, 1, 0, 0] =
     (\<lparr>pattern_to_id = [([0x41, 0x41], 0)], id_to_pattern = [(0, [0x41, 0x41])], next_id = 1\<rparr>,
      Some StructError)"
proof -
  have h1: "0 < length [0, 0 :: byte] \<and> length [0, 0 :: byte] < 4"
    by simp
  have fit: "entries_fit [(0, [0x41, 0x41])]"
    by (simp add: entries_fit_def)
  have h2: "(2 :: nat) < 2 ^ 32 \<and> entries_fit [(0, [0x41, 0x41])] \<and>
      length [(0 :: nat, [0x41, 0x41 :: byte])] < 2 \<and> length [0, 0, 0, 1, 0, 0 :: byte] < 8"
    using fit by simp
  have enc: "be32 2 @ encode_entries [(0, [0x41, 0x41])] @ [0, 0, 0, 1, 0, 0] =
     [0, 0, 0, 2, 0, 0, 0, 0, 0, 0, 0, 2, 0x41, 0x41, 0, 0, 0, 1, 0, 0]"
    by (simp add: be32_def encode_entries_def)
  have m: "fold merge_entry [(0, [0x41, 0x41])] registry_init =
     \<lparr>pattern_to_id = [([0x41, 0x41], 0)], id_to_pattern = [(0, [0x41, 0x41])], next_id = 1\<rparr>"
    by (simp add: merge_entry_def registry_init_def)
  note t = deserialize_truncated_fields
    [of registry_init "[0, 0]" 2 "[(0, [0x41, 0x41])]" "[0, 0, 0, 1, 0, 0]"]
  from t h1 have a: "deserialize registry_init [0, 0] = (registry_init, Some StructError)"
    by blast
  from t h2 have "deserialize registry_init
      (be32 2 @ encode_entries [(0, [0x41, 0x41])] @ [0, 0, 0, 1, 0, 0]) =
      (fold merge_entry [(0, [0x41, 0x41])] registry_init, Some StructError)"
    by blast
  then have b: "deserialize registry_init
      [0, 0, 0, 2, 0, 0, 0, 0, 0, 0, 0, 2, 0x41, 0x41, 0, 0, 0, 1, 0, 0] =
     (\<lparr>pattern_to_id = [([0x41, 0x41], 0)], id_to_pattern = [(0, [0x41, 0x41])], next_id = 1\<rparr>,
      Some StructError)"
    unfolding enc m .
  from a fit enc b show ?thesis
    by blast
qed

text \<open>
  The claim C8 as stated fails. A record that declares four pattern bytes and is followed
  by two is read without an error, and the two bytes are stored as its pattern; and the
  empty stream, which has no count field, is accepted.
\<close>

theorem deserialize_truncated_pattern_counterexample:
  "deserialize registry_init [0, 0, 0, 1, 0, 0, 0, 0, 0, 0, 0, 4, 0x41, 0x41] =
     (\<lparr>pattern_to_id = [([0x41, 0x41], 0)], id_to_pattern = [(0, [0x41, 0x41])], next_id = 1\<rparr>,
      None) \<and>
   deserialize registry_init [] = (registry_init, None)"
  by (simp add: deserialize_eval)

text \<open>
  Merging a snapshot is not checked against the entries that are there. A snapshot of
  another registry that gives the identifier 0 to another pattern leaves a registry in
  which \<^verbatim>\<open>pattern_to_id\<close> still maps \<^verbatim>\<open>A\<close> to 0 while \<^verbatim>\<open>lookup\<close> of 0 returns \<^verbatim>\<open>B\<close>.
\<close>

lemma deserialize_conflicting_snapshot:
  "deserialize (register_all [[0x41]]) [0, 0, 0, 1, 0, 0, 0, 0, 0, 0, 0, 1, 0x42] =
     (\<lparr>pattern_to_id = [([0x41], 0), ([0x42], 0)], id_to_pattern = [(0, [0x42])],
       next_id = 1\<rparr>, None) \<and>
   \<not> registry_consistent
     \<lparr>pattern_to_id = [([0x41], 0), ([0x42], 0)], id_to_pattern = [(0, [0x42])], next_id = 1\<rparr>"
  by (simp add: deserialize_eval registry_eval registry_consistent_def lookup_def)

subsection \<open>Round trip\<close>

lemma scan_reaches_pred:
  "scan_reaches sp data j \<Longrightarrow>
   j = 0 \<or> (\<exists>i < length data. scan_reaches sp data i \<and>
      j = i + (case first_match sp data i of None \<Rightarrow> 1 | Some (p, pid) \<Rightarrow> length p))"
  by (induction rule: scan_reaches.induct) auto

lemma registry_consistent_resolves:
  "registry_consistent r \<Longrightarrow> pointers_resolve r data"
  unfolding registry_consistent_def pointers_resolve_def
  using first_match_Some set_sorted_patterns by blast

lemma no_marker_no_copy: "ESCAPE_BYTE \<notin> set data \<Longrightarrow> no_marker_copied r data"
  unfolding no_marker_copied_def by (metis nth_mem)

text \<open>
  The invariant of the two loops, along a run of \<^verbatim>\<open>compress\<close> that returns: from any scan
  position it only appends to what it had written, and \<^verbatim>\<open>decompress\<close>, started where that
  suffix begins, appends exactly the rest of the input.
\<close>

lemma roundtrip_run:
  assumes run: "compress_loop sp data i cout = Some y"
    and nm: "\<forall>j < length data. scan_reaches sp data j \<and> first_match sp data j = None
               \<longrightarrow> data ! j \<noteq> ESCAPE_BYTE"
    and pr: "\<forall>j < length data. \<forall>p pid. scan_reaches sp data j \<and>
               first_match sp data j = Some (p, pid) \<longrightarrow> lookup r pid = Inr p"
    and reach: "scan_reaches sp data i" and le: "i \<le> length data"
  shows "\<exists>res. y = cout @ res \<and>
      (\<forall>pre dout. decompress_loop r (pre @ res) (length pre) dout = Inr (dout @ drop i data))"
proof -
  let ?Q = "\<lambda>sp data.
      (\<forall>j < length data. scan_reaches sp data j \<and> first_match sp data j = None
               \<longrightarrow> data ! j \<noteq> ESCAPE_BYTE) \<and>
      (\<forall>j < length data. \<forall>p pid. scan_reaches sp data j \<and>
               first_match sp data j = Some (p, pid) \<longrightarrow> lookup r pid = Inr p)"
  let ?P = "\<lambda>sp data i cout y. ?Q sp data \<longrightarrow> scan_reaches sp data i \<longrightarrow> i \<le> length data \<longrightarrow>
      (\<exists>res. y = cout @ res \<and>
        (\<forall>pre dout. decompress_loop r (pre @ res) (length pre) dout = Inr (dout @ drop i data)))"
  have "?P sp data i cout y"
  proof (rule compress_loop.raw_induct [where P = ?P, OF _ run])
    fix loop :: "(bytes \<times> nat) list \<Rightarrow> bytes \<Rightarrow> nat \<Rightarrow> bytes \<Rightarrow> bytes option"
    fix sp data i cout y
    assume IH: "\<And>sp data i cout y. loop sp data i cout = Some y \<Longrightarrow> ?P sp data i cout y"
    assume step: "(if i < length data
         then case first_match sp data i of
                None \<Rightarrow> loop sp data (i + 1) (cout @ [data ! i])
              | Some (pattern, pid) \<Rightarrow>
                  loop sp data (i + length pattern) (cout @ [ESCAPE_BYTE] @ varint_encode pid)
         else Some cout) = Some y"
    show "?P sp data i cout y"
    proof (intro impI)
      assume Q: "?Q sp data" and reach: "scan_reaches sp data i" and le: "i \<le> length data"
      show "\<exists>res. y = cout @ res \<and>
        (\<forall>pre dout. decompress_loop r (pre @ res) (length pre) dout = Inr (dout @ drop i data))"
      proof (cases "i < length data")
        case False
        with step have "y = cout @ []" by simp
        moreover have "\<forall>pre dout. decompress_loop r (pre @ []) (length pre) dout =
            Inr (dout @ drop i data)"
          using False by (simp add: decompress_loop_done)
        ultimately show ?thesis by blast
      next
        case True
        show ?thesis
        proof (cases "first_match sp data i")
          case None
          with Q True reach have lit: "data ! i \<noteq> ESCAPE_BYTE"
            by blast
          from step True None have "loop sp data (i + 1) (cout @ [data ! i]) = Some y"
            by simp
          moreover have "scan_reaches sp data (i + 1)"
            using reach True None by (rule scan_reaches.after_literal)
          moreover have "i + 1 \<le> length data"
            using True by simp
          ultimately obtain res where y: "y = (cout @ [data ! i]) @ res"
            and d: "\<And>pre dout. decompress_loop r (pre @ res) (length pre) dout =
                Inr (dout @ drop (i + 1) data)"
            using IH Q by blast
          have "decompress_loop r (pre @ (data ! i # res)) (length pre) dout =
              Inr (dout @ drop i data)" for pre dout
          proof -
            have "decompress_loop r (pre @ (data ! i # res)) (length pre) dout =
                  decompress_loop r (pre @ (data ! i # res)) (length pre + 1) (dout @ [data ! i])"
              using lit by (subst decompress_loop_literal) simp_all
            also have "\<dots> = decompress_loop r ((pre @ [data ! i]) @ res)
                (length (pre @ [data ! i])) (dout @ [data ! i])"
              by simp
            also have "\<dots> = Inr ((dout @ [data ! i]) @ drop (i + 1) data)"
              by (rule d)
            also have "(dout @ [data ! i]) @ drop (i + 1) data = dout @ drop i data"
              using True by (simp add: Cons_nth_drop_Suc)
            finally show ?thesis .
          qed
          moreover have "y = cout @ (data ! i # res)"
            using y by simp
          ultimately show ?thesis by blast
        next
          case (Some m)
          obtain p pid where m: "m = (p, pid)" by (cases m)
          from Some m first_match_Some have sw: "startswith data p i"
            by blast
          from Q True reach Some m have lk: "lookup r pid = Inr p"
            by blast
          note sp = startswith_split [OF sw]
          let ?tok = "ESCAPE_BYTE # varint_encode pid"
          from step True Some m
          have "loop sp data (i + length p) (cout @ [ESCAPE_BYTE] @ varint_encode pid) = Some y"
            by simp
          moreover have "scan_reaches sp data (i + length p)"
            using reach True Some [unfolded m] by (rule scan_reaches.after_pointer)
          ultimately obtain res where y: "y = (cout @ [ESCAPE_BYTE] @ varint_encode pid) @ res"
            and d: "\<And>pre dout. decompress_loop r (pre @ res) (length pre) dout =
                Inr (dout @ drop (i + length p) data)"
            using IH Q sp(1) by blast
          have "decompress_loop r (pre @ (?tok @ res)) (length pre) dout =
              Inr (dout @ drop i data)" for pre dout
          proof -
            have dec: "varint_decode (pre @ (?tok @ res)) (length pre + 1) =
                Inr (pid, length (varint_encode pid))"
              by (simp add: varint_decode_def varint_decode_encode)
            have "decompress_loop r (pre @ (?tok @ res)) (length pre) dout =
                  decompress_loop r (pre @ (?tok @ res))
                    (length pre + 1 + length (varint_encode pid)) (dout @ p)"
              using dec lk by (subst decompress_loop_pointer) simp_all
            also have "\<dots> = decompress_loop r ((pre @ ?tok) @ res) (length (pre @ ?tok)) (dout @ p)"
              by (simp add: add.commute)
            also have "\<dots> = Inr ((dout @ p) @ drop (i + length p) data)"
              by (rule d)
            also have "(dout @ p) @ drop (i + length p) data = dout @ drop i data"
              using sp(2) by simp
            finally show ?thesis .
          qed
          moreover have "y = cout @ (?tok @ res)"
            using y by simp
          ultimately show ?thesis by blast
        qed
      qed
    qed
  qed
  with nm pr reach le show ?thesis by blast
qed

lemma roundtrip_of_run:
  assumes "no_marker_copied r data" and "pointers_resolve r data"
    and "compress H r data = Some (out, m)"
  shows "decompress H r out m = Inr data"
proof -
  let ?sp = "sorted_patterns r"
  from assms(3) have c: "compress_loop ?sp data 0 [] = Some out"
    and h: "integrity_hash m = Some (H data)"
    by (auto simp: compress_def split: option.splits)
  have nm: "\<forall>j < length data. scan_reaches ?sp data j \<and> first_match ?sp data j = None
               \<longrightarrow> data ! j \<noteq> ESCAPE_BYTE"
    using assms(1) by (simp add: no_marker_copied_def)
  have pr: "\<forall>j < length data. \<forall>p pid. scan_reaches ?sp data j \<and>
               first_match ?sp data j = Some (p, pid) \<longrightarrow> lookup r pid = Inr p"
    using assms(2) by (simp add: pointers_resolve_def)
  from roundtrip_run [OF c nm pr scan_reaches.start]
  obtain res where "out = [] @ res"
    and d: "\<And>pre dout. decompress_loop r (pre @ res) (length pre) dout = Inr (dout @ drop 0 data)"
    by auto
  with d [of "[]" "[]"] have "decompress_loop r out 0 [] = Inr data"
    by simp
  with h show ?thesis
    by (simp add: decompress_def)
qed

lemma compress_returns:
  assumes "patterns_nonempty r"
  shows "\<exists>out m. compress H r data = Some (out, m)"
proof -
  have ne: "\<forall>(p, pid) \<in> set (sorted_patterns r). p \<noteq> []"
    using assms by (simp add: patterns_nonempty_def set_sorted_patterns)
  from compress_loop_bound [OF ne, of 0 data "[]"]
  obtain res where "compress_loop (sorted_patterns r) data 0 [] = Some res"
    by auto
  then show ?thesis
    by (simp add: compress_def)
qed

text \<open>
  C10, as amended. The round trip does not hold for every registry with non-empty
  patterns: \<^verbatim>\<open>lookup\<close> must give back, for every pointer that \<^verbatim>\<open>compress\<close> writes for the
  input, the pattern that the pointer replaced. Every registry whose two dictionaries
  agree has that, in particular every registry built by \<^verbatim>\<open>register\<close> calls
  (\<open>register_all_consistent\<close>). For every such registry whose patterns are all non-empty
  and every input without the byte 0xFE, \<^verbatim>\<open>compress\<close> returns and \<^verbatim>\<open>decompress\<close>, given its
  output and its metadata, returns the input.
\<close>

theorem roundtrip_without_marker:
  "(registry_consistent r \<longrightarrow> pointers_resolve r data) \<and>
   (patterns_nonempty r \<and> ESCAPE_BYTE \<notin> set data \<and> pointers_resolve r data \<longrightarrow>
      (\<exists>out m. compress H r data = Some (out, m) \<and> decompress H r out m = Inr data))"
proof (intro conjI impI)
  assume "registry_consistent r"
  then show "pointers_resolve r data"
    by (rule registry_consistent_resolves)
next
  assume a: "patterns_nonempty r \<and> ESCAPE_BYTE \<notin> set data \<and> pointers_resolve r data"
  then obtain out m where c: "compress H r data = Some (out, m)"
    using compress_returns by blast
  from a have "no_marker_copied r data"
    by (simp add: no_marker_no_copy)
  with a c have "decompress H r out m = Inr data"
    by (intro roundtrip_of_run) simp_all
  with c show "\<exists>out m. compress H r data = Some (out, m) \<and> decompress H r out m = Inr data"
    by blast
qed

theorem roundtrip_without_marker_witness:
  "registry_consistent (register_all [[0x41, 0x41, 0x41, 0x41]]) \<and>
   pointers_resolve (register_all [[0x41, 0x41, 0x41, 0x41]])
     [0x41, 0x41, 0x41, 0x41, 0x42, 0x43, 0x41, 0x41, 0x41, 0x41] \<and>
   patterns_nonempty (register_all [[0x41, 0x41, 0x41, 0x41]]) \<and>
   ESCAPE_BYTE \<notin> set [0x41, 0x41, 0x41, 0x41, 0x42, 0x43, 0x41, 0x41, 0x41, 0x41] \<and>
   compress demo_digest (register_all [[0x41, 0x41, 0x41, 0x41]])
       [0x41, 0x41, 0x41, 0x41, 0x42, 0x43, 0x41, 0x41, 0x41, 0x41] =
     Some ([0xFE, 0, 0x42, 0x43, 0xFE, 0],
           \<lparr>block_id = 0, original_size = 10, compressed_size = 6, compression_ratio = 10 / 6,
            layers_applied = [L8_ULTRA_EXTREME_MAPPING],
            integrity_hash = Some (demo_digest [0x41, 0x41, 0x41, 0x41, 0x42, 0x43, 0x41, 0x41, 0x41, 0x41])\<rparr>) \<and>
   decompress demo_digest (register_all [[0x41, 0x41, 0x41, 0x41]]) [0xFE, 0, 0x42, 0x43, 0xFE, 0]
     \<lparr>block_id = 0, original_size = 10, compressed_size = 6, compression_ratio = 10 / 6,
      layers_applied = [L8_ULTRA_EXTREME_MAPPING],
      integrity_hash = Some (demo_digest [0x41, 0x41, 0x41, 0x41, 0x42, 0x43, 0x41, 0x41, 0x41, 0x41])\<rparr> =
     Inr [0x41, 0x41, 0x41, 0x41, 0x42, 0x43, 0x41, 0x41, 0x41, 0x41]"
proof -
  let ?r = "register_all [[0x41, 0x41, 0x41, 0x41]]"
  let ?d = "[0x41, 0x41, 0x41, 0x41, 0x42, 0x43, 0x41, 0x41, 0x41, 0x41] :: bytes"
  have h1: "registry_consistent ?r"
    by (simp add: registry_consistent_def registry_eval lookup_def)
  have h2: "patterns_nonempty ?r"
    by (simp add: patterns_nonempty_def registry_eval)
  have h3: "ESCAPE_BYTE \<notin> set ?d"
    by (simp add: ESCAPE_BYTE_def)
  have c: "compress demo_digest ?r ?d =
     Some ([0xFE, 0, 0x42, 0x43, 0xFE, 0],
           \<lparr>block_id = 0, original_size = 10, compressed_size = 6, compression_ratio = 10 / 6,
            layers_applied = [L8_ULTRA_EXTREME_MAPPING],
            integrity_hash = Some (demo_digest ?d)\<rparr>)"
    by (simp add: compress_eval registry_eval)
  note t = roundtrip_without_marker [of ?r ?d demo_digest]
  from t h1 have h4: "pointers_resolve ?r ?d"
    by blast
  from t h2 h3 h4 have "\<exists>out m. compress demo_digest ?r ?d = Some (out, m) \<and>
      decompress demo_digest ?r out m = Inr ?d"
    by blast
  with c h1 h2 h3 h4 show ?thesis
    by simp
qed

text \<open>
  The claim C10 as stated fails. Register \<^verbatim>\<open>A\<close>, then merge the snapshot of a registry in
  which \<^verbatim>\<open>B\<close> has the identifier 0: the patterns are non-empty and the input \<^verbatim>\<open>A\<close> has no
  byte 0xFE, \<^verbatim>\<open>compress\<close> writes the pointer 0xFE 0x00, the scan of \<^verbatim>\<open>decompress\<close> rebuilds
  \<^verbatim>\<open>B\<close>, and the digest check raises \<^verbatim>\<open>IntegrityError\<close>.
\<close>

theorem roundtrip_conflicting_registry_counterexample:
  "serialize (register_all [[0x42]]) = Inr [0, 0, 0, 1, 0, 0, 0, 0, 0, 0, 0, 1, 0x42] \<and>
   deserialize (register_all [[0x41]]) [0, 0, 0, 1, 0, 0, 0, 0, 0, 0, 0, 1, 0x42] =
     (\<lparr>pattern_to_id = [([0x41], 0), ([0x42], 0)], id_to_pattern = [(0, [0x42])],
       next_id = 1\<rparr>, None) \<and>
   patterns_nonempty
     \<lparr>pattern_to_id = [([0x41], 0), ([0x42], 0)], id_to_pattern = [(0, [0x42])], next_id = 1\<rparr> \<and>
   ESCAPE_BYTE \<notin> set [0x41] \<and>
   compress demo_digest
     \<lparr>pattern_to_id = [([0x41], 0), ([0x42], 0)], id_to_pattern = [(0, [0x42])], next_id = 1\<rparr>
     [0x41] =
     Some ([0xFE, 0x00],
           \<lparr>block_id = 0, original_size = 1, compressed_size = 2, compression_ratio = 1 / 2,
            layers_applied = [L8_ULTRA_EXTREME_MAPPING],
            integrity_hash = Some (demo_digest [0x41])\<rparr>) \<and>
   decompress_loop
     \<lparr>pattern_to_id = [([0x41], 0), ([0x42], 0)], id_to_pattern = [(0, [0x42])], next_id = 1\<rparr>
     [0xFE, 0x00] 0 [] = Inr [0x42] \<and>
   decompress demo_digest
     \<lparr>pattern_to_id = [([0x41], 0), ([0x42], 0)], id_to_pattern = [(0, [0x42])], next_id = 1\<rparr>
     [0xFE, 0x00]
     \<lparr>block_id = 0, original_size = 1, compressed_size = 2, compression_ratio = 1 / 2,
      layers_applied = [L8_ULTRA_EXTREME_MAPPING],
      integrity_hash = Some (demo_digest [0x41])\<rparr> = Inl IntegrityError"
  by (simp add: serialize_eval deserialize_eval registry_eval patterns_nonempty_def
      compress_eval decompress_eval demo_digest_def)

text \<open>
  C1, as amended. The round trip does not hold for every registry state and input. It
  holds whenever \<^verbatim>\<open>compress\<close> returns, no byte that it copies at a scan position is the
  marker byte 0xFE (a marker byte inside a pattern that is replaced does no harm), and
  \<^verbatim>\<open>lookup\<close> resolves every pointer it writes to the pattern the pointer replaced: then
  \<^verbatim>\<open>decompress\<close> of its output with its metadata returns the input. \<^verbatim>\<open>compress\<close> returns
  whenever the registered patterns are all non-empty, and the pointers are resolved
  whenever the two dictionaries of the registry agree.
\<close>

theorem roundtrip_when_no_marker_copied:
  "(registry_consistent r \<longrightarrow> pointers_resolve r data) \<and>
   (patterns_nonempty r \<longrightarrow> (\<exists>out m. compress H r data = Some (out, m))) \<and>
   (no_marker_copied r data \<and> pointers_resolve r data \<and> compress H r data = Some (out, m) \<longrightarrow>
      decompress H r out m = Inr data)"
  using registry_consistent_resolves compress_returns roundtrip_of_run by blast

theorem roundtrip_when_no_marker_copied_witness:
  "registry_consistent (register_all [[0x41, 0xFE]]) \<and>
   patterns_nonempty (register_all [[0x41, 0xFE]]) \<and>
   no_marker_copied (register_all [[0x41, 0xFE]]) [0x42, 0x41, 0xFE] \<and>
   pointers_resolve (register_all [[0x41, 0xFE]]) [0x42, 0x41, 0xFE] \<and>
   compress demo_digest (register_all [[0x41, 0xFE]]) [0x42, 0x41, 0xFE] =
     Some ([0x42, 0xFE, 0x00],
           \<lparr>block_id = 0, original_size = 3, compressed_size = 3, compression_ratio = 1,
            layers_applied = [L8_ULTRA_EXTREME_MAPPING],
            integrity_hash = Some (demo_digest [0x42, 0x41, 0xFE])\<rparr>) \<and>
   decompress demo_digest (register_all [[0x41, 0xFE]]) [0x42, 0xFE, 0x00]
     \<lparr>block_id = 0, original_size = 3, compressed_size = 3, compression_ratio = 1,
      layers_applied = [L8_ULTRA_EXTREME_MAPPING],
      integrity_hash = Some (demo_digest [0x42, 0x41, 0xFE])\<rparr> = Inr [0x42, 0x41, 0xFE]"
proof -
  let ?r = "register_all [[0x41, 0xFE]]"
  let ?d = "[0x42, 0x41, 0xFE] :: bytes"
  let ?m = "\<lparr>block_id = 0, original_size = 3, compressed_size = 3, compression_ratio = 1,
            layers_applied = [L8_ULTRA_EXTREME_MAPPING],
            integrity_hash = Some (demo_digest ?d)\<rparr>"
  have sp: "sorted_patterns ?r = [([0x41, 0xFE], 0)]"
    by (simp add: sorted_patterns_def registry_eval)
  have h1: "registry_consistent ?r"
    by (simp add: registry_consistent_def registry_eval lookup_def)
  have h2: "patterns_nonempty ?r"
    by (simp add: patterns_nonempty_def registry_eval)
  have not2: "\<not> scan_reaches [([0x41, 0xFE], 0)] ?d (Suc (Suc 0))"
  proof
    assume "scan_reaches [([0x41, 0xFE], 0)] ?d (Suc (Suc 0))"
    from scan_reaches_pred [OF this] show False
      by (simp add: Ex_less_Suc2 startswith_def)
  qed
  have h3: "no_marker_copied ?r ?d"
    using not2 by (simp add: no_marker_copied_def sp All_less_Suc2 startswith_def ESCAPE_BYTE_def)
  have c: "compress demo_digest ?r ?d = Some ([0x42, 0xFE, 0x00], ?m)"
    by (simp add: compress_eval registry_eval)
  note t = roundtrip_when_no_marker_copied [of ?r ?d demo_digest "[0x42, 0xFE, 0x00]" ?m]
  from t h1 have h4: "pointers_resolve ?r ?d"
    by blast
  from t h3 h4 c have "decompress demo_digest ?r [0x42, 0xFE, 0x00] ?m = Inr ?d"
    by blast
  with h1 h2 h3 h4 c show ?thesis
    by blast
qed

text \<open>
  The claim C1 as stated fails, in three ways. With the empty registry the two bytes
  0xFE 0x00 are copied as they are, and \<^verbatim>\<open>decompress\<close> looks up the identifier 0, which
  raises \<^verbatim>\<open>KeyError\<close>. With the empty pattern registered \<^verbatim>\<open>compress\<close> never returns. After
  the merge of a snapshot that gives the identifier of \<^verbatim>\<open>C\<close> to \<^verbatim>\<open>D\<close>, the pointer written
  for \<^verbatim>\<open>C\<close> is read back as \<^verbatim>\<open>D\<close> and the digest check raises \<^verbatim>\<open>IntegrityError\<close>.
\<close>

theorem roundtrip_marker_counterexample:
  "compress demo_digest registry_init [0xFE, 0x00] =
     Some ([0xFE, 0x00],
           \<lparr>block_id = 0, original_size = 2, compressed_size = 2, compression_ratio = 1,
            layers_applied = [L8_ULTRA_EXTREME_MAPPING],
            integrity_hash = Some (demo_digest [0xFE, 0x00])\<rparr>) \<and>
   decompress demo_digest registry_init [0xFE, 0x00]
     \<lparr>block_id = 0, original_size = 2, compressed_size = 2, compression_ratio = 1,
      layers_applied = [L8_ULTRA_EXTREME_MAPPING],
      integrity_hash = Some (demo_digest [0xFE, 0x00])\<rparr> = Inl KeyError \<and>
   compress demo_digest (register_all [[]]) [0x42] = None \<and>
   deserialize (register_all [[0x43]]) [0, 0, 0, 1, 0, 0, 0, 0, 0, 0, 0, 1, 0x44] =
     (\<lparr>pattern_to_id = [([0x43], 0), ([0x44], 0)], id_to_pattern = [(0, [0x44])],
       next_id = 1\<rparr>, None) \<and>
   compress demo_digest
     \<lparr>pattern_to_id = [([0x43], 0), ([0x44], 0)], id_to_pattern = [(0, [0x44])], next_id = 1\<rparr>
     [0x43] =
     Some ([0xFE, 0x00],
           \<lparr>block_id = 0, original_size = 1, compressed_size = 2, compression_ratio = 1 / 2,
            layers_applied = [L8_ULTRA_EXTREME_MAPPING],
            integrity_hash = Some (demo_digest [0x43])\<rparr>) \<and>
   decompress demo_digest
     \<lparr>pattern_to_id = [([0x43], 0), ([0x44], 0)], id_to_pattern = [(0, [0x44])], next_id = 1\<rparr>
     [0xFE, 0x00]
     \<lparr>block_id = 0, original_size = 1, compressed_size = 2, compression_ratio = 1 / 2,
      layers_applied = [L8_ULTRA_EXTREME_MAPPING],
      integrity_hash = Some (demo_digest [0x43])\<rparr> = Inl IntegrityError"
proof -
  have "first_match (sorted_patterns (register_all [[]])) [0x42] 0 = Some ([], 0)"
    by (simp add: sorted_patterns_def registry_eval startswith_def)
  then have "compress_loop (sorted_patterns (register_all [[]])) [0x42] 0 [] = None"
    by (intro compress_loop_empty_match_diverges) simp_all
  then have never: "compress demo_digest (register_all [[]]) [0x42] = None"
    by (simp add: compress_def)
  have marker: "compress demo_digest registry_init [0xFE, 0x00] =
     Some ([0xFE, 0x00],
           \<lparr>block_id = 0, original_size = 2, compressed_size = 2, compression_ratio = 1,
            layers_applied = [L8_ULTRA_EXTREME_MAPPING],
            integrity_hash = Some (demo_digest [0xFE, 0x00])\<rparr>) \<and>
   decompress demo_digest registry_init [0xFE, 0x00]
     \<lparr>block_id = 0, original_size = 2, compressed_size = 2, compression_ratio = 1,
      layers_applied = [L8_ULTRA_EXTREME_MAPPING],
      integrity_hash = Some (demo_digest [0xFE, 0x00])\<rparr> = Inl KeyError"
    by (simp add: compress_eval registry_eval decompress_eval)
  have conflict: "deserialize (register_all [[0x43]]) [0, 0, 0, 1, 0, 0, 0, 0, 0, 0, 0, 1, 0x44] =
     (\<lparr>pattern_to_id = [([0x43], 0), ([0x44], 0)], id_to_pattern = [(0, [0x44])],
       next_id = 1\<rparr>, None) \<and>
   compress demo_digest
     \<lparr>pattern_to_id = [([0x43], 0), ([0x44], 0)], id_to_pattern = [(0, [0x44])], next_id = 1\<rparr>
     [0x43] =
     Some ([0xFE, 0x00],
           \<lparr>block_id = 0, original_size = 1, compressed_size = 2, compression_ratio = 1 / 2,
            layers_applied = [L8_ULTRA_EXTREME_MAPPING],
            integrity_hash = Some (demo_digest [0x43])\<rparr>) \<and>
   decompress demo_digest
     \<lparr>pattern_to_id = [([0x43], 0), ([0x44], 0)], id_to_pattern = [(0, [0x44])], next_id = 1\<rparr>
     [0xFE, 0x00]
     \<lparr>block_id = 0, original_size = 1, compressed_size = 2, compression_ratio = 1 / 2,
      layers_applied = [L8_ULTRA_EXTREME_MAPPING],
      integrity_hash = Some (demo_digest [0x43])\<rparr> = Inl IntegrityError"
    by (simp add: compress_eval registry_eval decompress_eval deserialize_eval demo_digest_def)
  from marker never conflict show ?thesis
    by blast
qed

end
